theory Spec2Isabelle
  imports Main "HOL-Library.Char_ord" "HOL-Library.List_Lexorder"
begin

section \<open>The JupyterLite manager: addons, task generators and their gating\<close>

text \<open>
  This theory embeds \<^verbatim>\<open>py/jupyterlite-core/jupyterlite_core/manager.py\<close>:
  \<^verbatim>\<open>create_addons\<close>, \<^verbatim>\<open>_is_sys_prefix_ignored\<close>, \<^verbatim>\<open>_default_doit_tasks\<close>,
  \<^verbatim>\<open>_gather_tasks\<close> and the generator \<^verbatim>\<open>_gather\<close> it closes over.

  Python dictionaries are association lists in insertion order; task descriptors are
  dictionaries that live in an object store, so that copying and mutation are visible;
  log records, \<^verbatim>\<open>print\<close> and the calls made on the external collaborators (addon
  factories and addon task methods) are events, returned in the order they happen.
\<close>

subsection \<open>Python values\<close>

text \<open>
  A dictionary field holds a string or some other object. The program only ever formats
  such a value into an f-string, so another object is given by its identity and by the
  text that formatting renders for it.
\<close>

datatype pyval = Str string | Obj nat string

fun py_format :: "pyval \<Rightarrow> string" where
  "py_format (Str s) = s"
| "py_format (Obj i s) = s"

type_synonym pydict = "(string \<times> pyval) list"

text \<open>
  \<^verbatim>\<open>d[k] = v\<close> on an insertion-ordered dictionary: an existing key keeps its place and
  gets the new value, a new key goes to the end.
\<close>

fun dict_set :: "('k \<times> 'v) list \<Rightarrow> 'k \<Rightarrow> 'v \<Rightarrow> ('k \<times> 'v) list" where
  "dict_set [] k v = [(k, v)]"
| "dict_set ((k', v') # kvs) k v =
     (if k' = k then (k, v) # kvs else (k', v') # dict_set kvs k v)"

text \<open>
  Exceptions. \<^verbatim>\<open>task["name"]\<close> on a descriptor without that key raises
  \<^verbatim>\<open>KeyError('name')\<close>; whatever an addon raises is an exception with the text that
  \<^verbatim>\<open>str\<close> renders for it.
\<close>

datatype exn = KeyError string | AddonError string

fun str_exn :: "exn \<Rightarrow> string" where
  "str_exn (KeyError k) = [CHR 0x27] @ k @ [CHR 0x27]"
| "str_exn (AddonError msg) = msg"

text \<open>
  The object store: the dictionaries that exist, addressed by position. A new object is
  appended; a reference is the position of its object. In Python a reference always has
  its object; a reference beyond the store stands for nothing, and the theorems that
  speak of the contents of descriptors assume that the descriptors are in the store.
\<close>

type_synonym ref = nat
type_synonym heap = "pydict list"

subsection \<open>Effects\<close>

datatype event =
    LogInfo string
  | LogDebug string
  | LogWarning string exn
  | LogError string
  | Print string
  | CallFactory string bool
  | CallOp string string

text \<open>
  \<open>CallFactory name flag\<close> is the call \<^verbatim>\<open>addon_implementation(**addon_kwargs)\<close> for the
  entry point \<open>name\<close>, where \<open>flag\<close> says whether \<^verbatim>\<open>ignore_sys_prefix=True\<close> is among the
  keyword arguments. \<open>CallOp name attr\<close> is the call \<^verbatim>\<open>getattr(addon, attr)(self)\<close> on
  the addon registered as \<open>name\<close>.
\<close>

subsection \<open>Addons and the manager's configuration\<close>

text \<open>
  An addon instance has its list \<^verbatim>\<open>__all__\<close> of implemented attributes and, for an
  attribute, what polling \<^verbatim>\<open>getattr(addon, attr)(self)\<close> gives: the finite sequence of
  task descriptors it yields (references to dictionaries in the store) and how the
  sequence ends, normally (\<open>None\<close>) or by raising. A call that raises at once is the empty
  sequence that ends by raising.
\<close>

record addon =
  addon_all :: "string list"
  getattr_call :: "string \<Rightarrow> ref list \<times> exn option"

text \<open>
  An entry point is called with \<^verbatim>\<open>manager=self\<close> and, optionally,
  \<^verbatim>\<open>ignore_sys_prefix=True\<close>; it returns an instance or raises. Its argument here is
  whether the optional keyword is passed; the manager it is given is the one at hand,
  as it is for the task methods of an addon.
\<close>

type_synonym addon_implementation = "bool \<Rightarrow> exn + addon"

text \<open>
  Modelled from the spec: the type of the trait \<^verbatim>\<open>ignore_sys_prefix\<close>, which is declared
  in \<^verbatim>\<open>LiteBuildConfig\<close> (\<^verbatim>\<open>config.py\<close>, not among the sources). The spec has it as
  the environment-ignore selector, a boolean or an explicit set of plugin names;
  \<^verbatim>\<open>_is_sys_prefix_ignored\<close> tells the two apart by \<^verbatim>\<open>isinstance(ignore, tuple)\<close>.
\<close>

datatype ignore = IgnoreBool bool | IgnoreTuple "string list"

text \<open>
  The manager's configuration: the traits \<^verbatim>\<open>strict\<close> and \<^verbatim>\<open>task_prefix\<close> of
  \<^verbatim>\<open>LiteManager\<close>, and the two it inherits and reads, \<^verbatim>\<open>disable_addons\<close> (the spec's
  disabled-plugin list, tested with \<^verbatim>\<open>in\<close>) and \<^verbatim>\<open>ignore_sys_prefix\<close>. The table of
  entry points that \<^verbatim>\<open>get_addon_implementations()\<close> returns and the constants \<^verbatim>\<open>HOOKS\<close>,
  \<^verbatim>\<open>PHASES\<close> and \<^verbatim>\<open>HOOK_PARENTS\<close> are arguments of the functions that use them.
\<close>

record manager =
  strict :: bool
  task_prefix :: string
  disable_addons :: "string list"
  ignore_sys_prefix :: ignore

subsection \<open>\<^verbatim>\<open>_is_sys_prefix_ignored\<close> and \<^verbatim>\<open>create_addons\<close>\<close>

definition is_sys_prefix_ignored :: "manager \<Rightarrow> string \<Rightarrow> bool" where
  "is_sys_prefix_ignored m addon =
     (case ignore_sys_prefix m of
        IgnoreTuple names \<Rightarrow> addon \<in> set names
      | IgnoreBool b \<Rightarrow> b)"

text \<open>
  The loop of \<^verbatim>\<open>create_addons\<close> over the entry points, with the dictionary \<^verbatim>\<open>addons\<close>
  built so far. Everything after the \<^verbatim>\<open>disable_addons\<close> test runs inside
  \<^verbatim>\<open>try ... except Exception\<close>.
\<close>

fun create_addons_loop ::
  "manager \<Rightarrow> (string \<times> addon_implementation) list \<Rightarrow> (string \<times> addon) list
     \<Rightarrow> (string \<times> addon) list \<times> event list" where
  "create_addons_loop m [] addons = (addons, [])"
| "create_addons_loop m ((name, addon_implementation) # rest) addons =
     (if name \<in> set (disable_addons m) then
        (case create_addons_loop m rest addons of
           (result, evs) \<Rightarrow>
             (result, LogInfo (''[lite] [addon] ['' @ name @ ''] skipped by config'') # evs))
      else
        (let flag = is_sys_prefix_ignored m name;
             before =
               (if flag
                then [LogDebug (''[lite] [addon] ['' @ name @ ''] ... ignore sys prefix'')]
                else [])
               @ [CallFactory name flag]
         in case addon_implementation flag of
              Inl err \<Rightarrow>
                (case create_addons_loop m rest addons of
                   (result, evs) \<Rightarrow>
                     (result,
                      before @ [LogWarning (''[lite] [addon] ['' @ name @ ''] FAIL'') err] @ evs))
            | Inr addon_inst \<Rightarrow>
                (case create_addons_loop m rest (dict_set addons name addon_inst) of
                   (result, evs) \<Rightarrow>
                     (result,
                      before
                      @ map (\<lambda>one. LogDebug (''[lite] [addon] ['' @ name @ ''] ... will '' @ one))
                          (sort (addon_all addon_inst))
                      @ evs))))"

definition create_addons ::
  "manager \<Rightarrow> (string \<times> addon_implementation) list \<Rightarrow> (string \<times> addon) list \<times> event list" where
  "create_addons m implementations = create_addons_loop m implementations []"

subsection \<open>\<^verbatim>\<open>_gather_tasks\<close> and \<^verbatim>\<open>_default_doit_tasks\<close>\<close>

text \<open>
  A task generator is \<^verbatim>\<open>_gather\<close> for its attribute, or \<^verbatim>\<open>_delayed_gather\<close>, which is
  \<^verbatim>\<open>_gather\<close> decorated with \<^verbatim>\<open>doit.create_after\<close> of the named task.
\<close>

datatype generator = Gather string | DelayedGather string string

fun generator_attr :: "generator \<Rightarrow> string" where
  "generator_attr (Gather attr) = attr"
| "generator_attr (DelayedGather after attr) = attr"

fun create_after :: "generator \<Rightarrow> string option" where
  "create_after (Gather attr) = None"
| "create_after (DelayedGather after attr) = Some after"

text \<open>\<^verbatim>\<open>if not prev_attr\<close> holds for \<^verbatim>\<open>None\<close> and for the empty string.\<close>

definition gather_tasks :: "manager \<Rightarrow> string \<Rightarrow> string option \<Rightarrow> generator" where
  "gather_tasks m attr prev_attr =
     (case prev_attr of
        None \<Rightarrow> Gather attr
      | Some p \<Rightarrow> if p = [] then Gather attr else DelayedGather (task_prefix m @ p) attr)"

text \<open>
  The constants \<^verbatim>\<open>HOOKS\<close>, \<^verbatim>\<open>PHASES\<close> and \<^verbatim>\<open>HOOK_PARENTS\<close> are imported from
  \<^verbatim>\<open>constants\<close>; they are parameters here. The inner loop runs over the phases of one
  hook, the outer loop over the hooks; both carry \<^verbatim>\<open>tasks\<close> and \<^verbatim>\<open>prev_attr\<close>.
\<close>

fun phases_loop ::
  "manager \<Rightarrow> (string \<times> string) list \<Rightarrow> string \<Rightarrow> string list
     \<Rightarrow> (string \<times> generator) list \<times> string option
     \<Rightarrow> (string \<times> generator) list \<times> string option" where
  "phases_loop m hook_parents hook [] (tasks, prev_attr) = (tasks, prev_attr)"
| "phases_loop m hook_parents hook (phase # phases) (tasks, prev_attr) =
     (let prev_attr1 =
            (if phase = ''pre_'' then
               (case map_of hook_parents hook of
                  Some parent \<Rightarrow> Some (''post_'' @ parent)
                | None \<Rightarrow> prev_attr)
             else prev_attr);
          attr = phase @ hook;
          tasks1 = dict_set tasks (''task_'' @ task_prefix m @ attr) (gather_tasks m attr prev_attr1)
      in phases_loop m hook_parents hook phases (tasks1, Some attr))"

fun hooks_loop ::
  "manager \<Rightarrow> (string \<times> string) list \<Rightarrow> string list \<Rightarrow> string list
     \<Rightarrow> (string \<times> generator) list \<times> string option
     \<Rightarrow> (string \<times> generator) list \<times> string option" where
  "hooks_loop m hook_parents [] phases acc = acc"
| "hooks_loop m hook_parents (hook # hooks) phases acc =
     hooks_loop m hook_parents hooks phases (phases_loop m hook_parents hook phases acc)"

definition default_doit_tasks ::
  "manager \<Rightarrow> string list \<Rightarrow> string list \<Rightarrow> (string \<times> string) list
     \<Rightarrow> (string \<times> generator) list" where
  "default_doit_tasks m hooks phases hook_parents =
     fst (hooks_loop m hook_parents hooks phases ([], None))"

subsection \<open>The generator \<^verbatim>\<open>_gather\<close>\<close>

text \<open>
  The body of \<^verbatim>\<open>for task in getattr(addon, attr)(self)\<close> for one addon, on the
  descriptors the addon yields and the way its sequence ends. The result is what the
  generator has yielded, whether and how the \<^verbatim>\<open>try\<close> block was left by an exception,
  the store afterwards, and the output printed.

  \<^verbatim>\<open>{**task}\<close> makes a new dictionary with the entries of \<open>task\<close>; then \<^verbatim>\<open>task["name"]\<close>
  is read from the addon's descriptor and the formatted name is stored in the new
  dictionary, whose \<^verbatim>\<open>"name"\<close> is printed (the string just stored) before it is yielded.
\<close>

fun gather_addon ::
  "manager \<Rightarrow> string \<Rightarrow> ref list \<Rightarrow> exn option \<Rightarrow> heap
     \<Rightarrow> ref list \<times> exn option \<times> heap \<times> event list" where
  "gather_addon m name [] ending h = ([], ending, h, [])"
| "gather_addon m name (task # rest) ending h =
     (let patched_task = length h;
          h1 = h @ [h ! task]
      in case map_of (h1 ! task) ''name'' of
           None \<Rightarrow> ([], Some (KeyError ''name''), h1, [])
         | Some v \<Rightarrow>
             (let new_name = task_prefix m @ name @ '':'' @ py_format v;
                  h2 = h1[patched_task := dict_set (h1 ! patched_task) ''name'' (Str new_name)]
              in case gather_addon m name rest ending h2 of
                   (yielded, raised, h', evs) \<Rightarrow>
                     (patched_task # yielded, raised, h', Print new_name # evs)))"

text \<open>
  The loop over \<^verbatim>\<open>self._addons.items()\<close>. An exception that leaves the \<^verbatim>\<open>try\<close> block
  is logged, and raised again when the manager is strict, which ends the generator.
\<close>

fun gather_loop ::
  "manager \<Rightarrow> string \<Rightarrow> (string \<times> addon) list \<Rightarrow> heap
     \<Rightarrow> ref list \<times> exn option \<times> heap \<times> event list" where
  "gather_loop m attr [] h = ([], None, h, [])"
| "gather_loop m attr ((name, addon) # rest) h =
     (if attr \<in> set (addon_all addon) then
        (case getattr_call addon attr of
           (tasks, ending) \<Rightarrow>
             (case gather_addon m name tasks ending h of
                (yielded, raised, h1, evs) \<Rightarrow>
                  (case raised of
                     None \<Rightarrow>
                       (case gather_loop m attr rest h1 of
                          (yielded', raised', h', evs') \<Rightarrow>
                            (yielded @ yielded', raised', h', CallOp name attr # evs @ evs'))
                   | Some error \<Rightarrow>
                       (let logged =
                              CallOp name attr # evs
                              @ [LogError (''[lite] ['' @ attr @ ''] ['' @ name @ ''] [ERR] ''
                                           @ str_exn error)]
                        in if strict m then (yielded, Some error, h1, logged)
                           else
                             (case gather_loop m attr rest h1 of
                                (yielded', raised', h', evs') \<Rightarrow>
                                  (yielded @ yielded', raised', h', logged @ evs'))))))
      else gather_loop m attr rest h)"

text \<open>
  \<^verbatim>\<open>_gather\<close> for the attribute \<open>attr\<close>, run to its end on the registry \<open>addons\<close> (the
  value of \<^verbatim>\<open>self._addons\<close>); \<^verbatim>\<open>_delayed_gather\<close> yields from it.
\<close>

definition gather ::
  "manager \<Rightarrow> (string \<times> addon) list \<Rightarrow> string \<Rightarrow> heap
     \<Rightarrow> ref list \<times> exn option \<times> heap \<times> event list" where
  "gather m addons attr h = gather_loop m attr addons h"

fun run_generator ::
  "manager \<Rightarrow> (string \<times> addon) list \<Rightarrow> generator \<Rightarrow> heap
     \<Rightarrow> ref list \<times> exn option \<times> heap \<times> event list" where
  "run_generator m addons (Gather attr) h = gather m addons attr h"
| "run_generator m addons (DelayedGather after attr) h = gather m addons attr h"

subsection \<open>Reading a generator's result\<close>

fun yielded :: "ref list \<times> exn option \<times> heap \<times> event list \<Rightarrow> ref list" where
  "yielded (ys, r, h, evs) = ys"

fun raised :: "ref list \<times> exn option \<times> heap \<times> event list \<Rightarrow> exn option" where
  "raised (ys, r, h, evs) = r"

fun store_after :: "ref list \<times> exn option \<times> heap \<times> event list \<Rightarrow> heap" where
  "store_after (ys, r, h, evs) = h"

fun events :: "ref list \<times> exn option \<times> heap \<times> event list \<Rightarrow> event list" where
  "events (ys, r, h, evs) = evs"

text \<open>The \<^verbatim>\<open>"name"\<close> fields of the descriptors a generator has yielded, in order.\<close>

definition yielded_names ::
  "ref list \<times> exn option \<times> heap \<times> event list \<Rightarrow> pyval option list" where
  "yielded_names r = map (\<lambda>p. map_of (store_after r ! p) ''name'') (yielded r)"

text \<open>
  Notions used to state what the generator does. A descriptor \<open>has_name\<close> when its
  dictionary has the key \<^verbatim>\<open>"name"\<close>; \<open>patched_name\<close> is the f-string of the generator for
  such a descriptor, \<open>patched\<close> the dictionary with that name stored, \<open>printed\<close> the line
  printed for it, and \<open>log_error\<close> the record logged when the \<^verbatim>\<open>try\<close> block was left
  by an exception.
\<close>

definition has_name :: "heap \<Rightarrow> ref \<Rightarrow> bool" where
  "has_name h task \<longleftrightarrow> map_of (h ! task) ''name'' \<noteq> None"

definition patched_name :: "manager \<Rightarrow> string \<Rightarrow> pydict \<Rightarrow> string" where
  "patched_name m name d =
     task_prefix m @ name @ '':'' @ (case map_of d ''name'' of None \<Rightarrow> [] | Some v \<Rightarrow> py_format v)"

definition patched :: "manager \<Rightarrow> string \<Rightarrow> pydict \<Rightarrow> pydict" where
  "patched m name d = dict_set d ''name'' (Str (patched_name m name d))"

definition printed :: "manager \<Rightarrow> string \<Rightarrow> pydict \<Rightarrow> event" where
  "printed m name d = Print (patched_name m name d)"

definition log_error :: "string \<Rightarrow> string \<Rightarrow> exn option \<Rightarrow> event list" where
  "log_error attr name r =
     (case r of
        None \<Rightarrow> []
      | Some error \<Rightarrow>
          [LogError (''[lite] ['' @ attr @ ''] ['' @ name @ ''] [ERR] '' @ str_exn error)])"

text \<open>
  Every descriptor that an addon of the registry implementing the attribute yields for
  it is a dictionary of the store.
\<close>

definition descriptors_in_store :: "string \<Rightarrow> (string \<times> addon) list \<Rightarrow> heap \<Rightarrow> bool" where
  "descriptors_in_store attr addons h \<longleftrightarrow>
     (\<forall>(name, addon) \<in> set addons.
        attr \<in> set (addon_all addon) \<longrightarrow>
        (\<forall>task \<in> set (fst (getattr_call addon attr)). task < length h))"

text \<open>
  The name a descriptor has when the addon yields it, formatted as the f-string formats
  it, and the names an addon hands to the generator of an attribute: those of the named
  descriptors of its sequence, when it implements the attribute.
\<close>

definition original_name :: "heap \<Rightarrow> ref \<Rightarrow> string" where
  "original_name h task =
     (case map_of (h ! task) ''name'' of None \<Rightarrow> [] | Some v \<Rightarrow> py_format v)"

definition polled_names :: "heap \<Rightarrow> addon \<Rightarrow> string \<Rightarrow> string list" where
  "polled_names h addon attr =
     (if attr \<in> set (addon_all addon)
      then map (original_name h) (filter (has_name h) (fst (getattr_call addon attr)))
      else [])"

text \<open>
  The names the generator of an attribute yields for one registered addon whose sequence
  it polls: the rewritten names of the descriptors up to the first one without a name.
\<close>

definition contributed :: "manager \<Rightarrow> heap \<Rightarrow> string \<Rightarrow> string \<times> addon \<Rightarrow> pyval option list" where
  "contributed m h attr =
     (\<lambda>(name, addon).
        if attr \<in> set (addon_all addon)
        then map (\<lambda>task. Some (Str (task_prefix m @ name @ '':'' @ original_name h task)))
               (takeWhile (has_name h) (fst (getattr_call addon attr)))
        else [])"

subsection \<open>A small site\<close>

text \<open>
  Concrete inputs on which the theorems below are instantiated: a store with four task
  descriptors (the first and the last are both named \<open>copy\<close>, the third has no name),
  three addons, two managers that differ in \<^verbatim>\<open>strict\<close> only, one that ignores the sys
  prefix for every addon, and a table of entry points.
\<close>

definition site_store :: heap where
  "site_store =
     [[(''name'', Str ''copy''), (''actions'', Obj 0 ''[copy]'')],
      [(''name'', Str ''index''), (''targets'', Obj 1 ''[index.html]'')],
      [(''doc'', Str ''no name here'')],
      [(''actions'', Obj 2 ''[link]''), (''name'', Str ''copy'')]]"

definition contents_addon :: addon where
  "contents_addon =
     \<lparr>addon_all = [''post_build'', ''build''],
      getattr_call =
        (\<lambda>attr. if attr = ''build'' then ([0, 1], None)
                else if attr = ''post_build'' then ([3], None)
                else ([], Some (AddonError ''no such task'')))\<rparr>"

definition broken_addon :: addon where
  "broken_addon =
     \<lparr>addon_all = [''build''],
      getattr_call = (\<lambda>attr. ([3], Some (AddonError ''boom'')))\<rparr>"

definition lab_addon :: addon where
  "lab_addon =
     \<lparr>addon_all = [''build''],
      getattr_call = (\<lambda>attr. ([3, 2, 1], None))\<rparr>"

definition strict_manager :: manager where
  "strict_manager =
     \<lparr>strict = True, task_prefix = ''x_'', disable_addons = [''off''],
      ignore_sys_prefix = IgnoreTuple [''lab'']\<rparr>"

definition lenient_manager :: manager where
  "lenient_manager =
     \<lparr>strict = False, task_prefix = ''x_'', disable_addons = [''off''],
      ignore_sys_prefix = IgnoreTuple [''lab'']\<rparr>"

definition blanket_manager :: manager where
  "blanket_manager =
     \<lparr>strict = True, task_prefix = [], disable_addons = [''off''],
      ignore_sys_prefix = IgnoreBool True\<rparr>"

definition entry_points :: "(string \<times> addon_implementation) list" where
  "entry_points =
     [(''contents'', \<lambda>flag. Inr contents_addon),
      (''off'', \<lambda>flag. Inr broken_addon),
      (''missing'', \<lambda>flag. Inl (AddonError ''cannot import'')),
      (''lab'', \<lambda>flag. Inr lab_addon)]"

section \<open>Auxiliary facts\<close>

subsection \<open>Dictionaries and the registry\<close>

lemma dict_set_map_fst:
  "map fst (dict_set kvs k v) =
     (if k \<in> set (map fst kvs) then map fst kvs else map fst kvs @ [k])"
  by (induction kvs) force+

lemma dict_set_keys: "fst ` set (dict_set kvs k v) = insert k (fst ` set kvs)"
proof -
  have "set (map fst (dict_set kvs k v)) = insert k (set (map fst kvs))"
    unfolding dict_set_map_fst by auto
  then show ?thesis by simp
qed

lemma create_addons_loop_fst:
  "fst (create_addons_loop m ((name, impl) # rest) acc) =
     (if name \<in> set (disable_addons m) then fst (create_addons_loop m rest acc)
      else case impl (is_sys_prefix_ignored m name) of
             Inl err \<Rightarrow> fst (create_addons_loop m rest acc)
           | Inr inst \<Rightarrow> fst (create_addons_loop m rest (dict_set acc name inst)))"
  by (simp add: Let_def split: prod.splits sum.splits)

lemma create_addons_loop_snd:
  "snd (create_addons_loop m ((name, impl) # rest) acc) =
     (if name \<in> set (disable_addons m)
      then LogInfo (''[lite] [addon] ['' @ name @ ''] skipped by config'')
             # snd (create_addons_loop m rest acc)
      else (if is_sys_prefix_ignored m name
            then [LogDebug (''[lite] [addon] ['' @ name @ ''] ... ignore sys prefix'')]
            else [])
           @ CallFactory name (is_sys_prefix_ignored m name)
           # (case impl (is_sys_prefix_ignored m name) of
                Inl err \<Rightarrow>
                  LogWarning (''[lite] [addon] ['' @ name @ ''] FAIL'') err
                    # snd (create_addons_loop m rest acc)
              | Inr inst \<Rightarrow>
                  map (\<lambda>one. LogDebug (''[lite] [addon] ['' @ name @ ''] ... will '' @ one))
                    (sort (addon_all inst))
                  @ snd (create_addons_loop m rest (dict_set acc name inst))))"
  by (simp add: Let_def split: prod.splits sum.splits)

lemma create_addons_loop_append_fst:
  "fst (create_addons_loop m (xs @ ys) acc) =
     fst (create_addons_loop m ys (fst (create_addons_loop m xs acc)))"
proof (induction xs arbitrary: acc)
  case Nil
  then show ?case by simp
next
  case (Cons x xs)
  obtain name impl where x: "x = (name, impl)" by (cases x)
  show ?case
    unfolding x append_Cons create_addons_loop_fst
    by (simp add: Cons.IH split: sum.splits)
qed

lemma create_addons_loop_append_snd:
  "snd (create_addons_loop m (xs @ ys) acc) =
     snd (create_addons_loop m xs acc)
     @ snd (create_addons_loop m ys (fst (create_addons_loop m xs acc)))"
proof (induction xs arbitrary: acc)
  case Nil
  then show ?case by simp
next
  case (Cons x xs)
  obtain name impl where x: "x = (name, impl)" by (cases x)
  show ?case
    unfolding x append_Cons create_addons_loop_fst create_addons_loop_snd
    by (simp add: Cons.IH split: sum.splits)
qed

lemma create_addons_loop_keys:
  "fst ` set (fst (create_addons_loop m xs acc))
     \<subseteq> fst ` set acc \<union> {n \<in> fst ` set xs. n \<notin> set (disable_addons m)}"
proof (induction xs arbitrary: acc)
  case Nil
  then show ?case by simp
next
  case (Cons x xs)
  obtain name impl where x: "x = (name, impl)" by (cases x)
  show ?case
  proof (cases "name \<in> set (disable_addons m)")
    case True
    then show ?thesis
      unfolding x create_addons_loop_fst using Cons.IH [of acc] by auto
  next
    case False
    show ?thesis
    proof (cases "impl (is_sys_prefix_ignored m name)")
      case (Inl err)
      then show ?thesis
        unfolding x create_addons_loop_fst using False Cons.IH [of acc] by auto
    next
      case (Inr inst)
      then show ?thesis
        unfolding x create_addons_loop_fst
        using False Cons.IH [of "dict_set acc name inst"]
        by (auto simp: dict_set_keys)
    qed
  qed
qed

lemma create_addons_loop_calls:
  "CallFactory n b \<in> set (snd (create_addons_loop m xs acc)) \<longleftrightarrow>
     n \<in> fst ` set xs \<and> n \<notin> set (disable_addons m) \<and> b = is_sys_prefix_ignored m n"
proof (induction xs arbitrary: acc)
  case Nil
  then show ?case by simp
next
  case (Cons x xs)
  obtain name impl where x: "x = (name, impl)" by (cases x)
  show ?case
    unfolding x create_addons_loop_snd
    by (auto simp: Cons.IH split: sum.splits)
qed

lemma is_sys_prefix_ignored_strict:
  "is_sys_prefix_ignored (m\<lparr>strict := b\<rparr>) n = is_sys_prefix_ignored m n"
  by (simp add: is_sys_prefix_ignored_def)

lemma create_addons_loop_strict:
  "create_addons_loop (m\<lparr>strict := b\<rparr>) xs acc = create_addons_loop m xs acc"
proof (induction xs arbitrary: acc)
  case Nil
  then show ?case by simp
next
  case (Cons x xs)
  obtain name impl where x: "x = (name, impl)" by (cases x)
  have "fst (create_addons_loop (m\<lparr>strict := b\<rparr>) (x # xs) acc) =
          fst (create_addons_loop m (x # xs) acc)"
    unfolding x create_addons_loop_fst
    by (simp add: Cons.IH is_sys_prefix_ignored_strict split: sum.splits)
  moreover have "snd (create_addons_loop (m\<lparr>strict := b\<rparr>) (x # xs) acc) =
          snd (create_addons_loop m (x # xs) acc)"
    unfolding x create_addons_loop_snd
    by (simp add: Cons.IH is_sys_prefix_ignored_strict split: sum.splits)
  ultimately show ?case by (rule prod_eqI)
qed

lemma create_addons_loop_disabled:
  "n \<in> set (disable_addons m) \<Longrightarrow>
     fst (create_addons_loop m [x \<leftarrow> xs. fst x \<noteq> n] acc) = fst (create_addons_loop m xs acc)"
proof (induction xs arbitrary: acc)
  case Nil
  then show ?case by simp
next
  case (Cons x xs)
  obtain name impl where x: "x = (name, impl)" by (cases x)
  show ?case
    using Cons.prems
    by (auto simp: x create_addons_loop_fst Cons.IH simp del: create_addons_loop.simps
          split: sum.splits)
qed

lemma is_sys_prefix_ignored_iff:
  "is_sys_prefix_ignored m n \<longleftrightarrow>
     (\<exists>names. ignore_sys_prefix m = IgnoreTuple names \<and> n \<in> set names)
     \<or> ignore_sys_prefix m = IgnoreBool True"
  by (cases "ignore_sys_prefix m") (auto simp: is_sys_prefix_ignored_def)

subsection \<open>The generator\<close>








lemma gather_addon_closed:
  assumes "\<forall>t \<in> set tasks. t < length h"
  shows "gather_addon m name tasks ending h =
     ([length h ..< length h + length (takeWhile (has_name h) tasks)],
      (if length (takeWhile (has_name h) tasks) < length tasks
       then Some (KeyError ''name'') else ending),
      h @ map (\<lambda>t. patched m name (h ! t)) (takeWhile (has_name h) tasks)
        @ (if length (takeWhile (has_name h) tasks) < length tasks
           then [h ! (tasks ! length (takeWhile (has_name h) tasks))] else []),
      map (\<lambda>t. printed m name (h ! t)) (takeWhile (has_name h) tasks))"
  using assms
proof (induction tasks arbitrary: h)
  case Nil
  then show ?case by simp
next
  case (Cons task rest)
  have task: "task < length h" using Cons.prems by simp
  show ?case
  proof (cases "map_of (h ! task) ''name''")
    case None
    then have "\<not> has_name h task" by (simp add: has_name_def)
    then show ?thesis using task None by (simp add: nth_append Let_def)
  next
    case (Some v)
    then have named: "has_name h task" by (simp add: has_name_def)
    define h2 where "h2 = h @ [patched m name (h ! task)]"
    have len2: "length h2 = Suc (length h)" by (simp add: h2_def)
    have rest: "\<forall>t \<in> set rest. t < length h2" using Cons.prems by (auto simp: h2_def)
    have same: "\<And>t. t \<in> set rest \<Longrightarrow> h2 ! t = h ! t"
      using Cons.prems by (simp add: h2_def nth_append)
    have tw: "takeWhile (has_name h2) rest = takeWhile (has_name h) rest"
      by (rule takeWhile_cong) (simp_all add: same has_name_def)
    let ?ok = "takeWhile (has_name h) rest"
    have sub: "\<And>t. t \<in> set ?ok \<Longrightarrow> t \<in> set rest"
      by (auto dest: set_takeWhileD)
    have bad: "length ?ok < length rest \<Longrightarrow> h2 ! (rest ! length ?ok) = h ! (rest ! length ?ok)"
      by (rule same) simp
    have maps:
      "map (\<lambda>t. patched m name (h2 ! t)) ?ok = map (\<lambda>t. patched m name (h ! t)) ?ok"
      "map (\<lambda>t. printed m name (h2 ! t)) ?ok = map (\<lambda>t. printed m name (h ! t)) ?ok"
      by (simp_all add: same sub cong: map_cong)
    have step: "gather_addon m name (task # rest) ending h =
        (case gather_addon m name rest ending h2 of
           (ys, r, h', evs) \<Rightarrow> (length h # ys, r, h', printed m name (h ! task) # evs))"
      using Some task by (simp add: Let_def nth_append h2_def patched_def printed_def patched_name_def)
    have upt: "[length h ..< length h + Suc (length ?ok)] =
                 length h # [length h2 ..< length h2 + length ?ok]"
      by (subst upt_rec) (simp add: len2)
    have upt2: "\<And>k. [length h ..< Suc (length h + k)] =
                 length h # [Suc (length h) ..< Suc (length h + k)]"
      by (subst upt_rec) simp
    have ok: "takeWhile (has_name h) (task # rest) = task # ?ok"
      using named by simp
    show ?thesis
      unfolding step Cons.IH [OF rest] tw maps ok
      using bad by (simp add: upt2 h2_def del: upt_Suc)
  qed
qed


lemma result_collapse: "(yielded r, raised r, store_after r, events r) = r"
  by (cases r) auto

lemma gather_addon_Cons:
  "gather_addon m name (task # rest) ending h =
     (case map_of ((h @ [h ! task]) ! task) ''name'' of
        None \<Rightarrow> ([], Some (KeyError ''name''), h @ [h ! task], [])
      | Some v \<Rightarrow>
          (let new_name = task_prefix m @ name @ '':'' @ py_format v;
               r = gather_addon m name rest ending (h @ [dict_set (h ! task) ''name'' (Str new_name)])
           in (length h # yielded r, raised r, store_after r, Print new_name # events r)))"
  by (simp add: Let_def split: option.splits prod.splits)

lemma gather_addon_store:
  "\<exists>new. store_after (gather_addon m name tasks ending h) = h @ new"
proof (induction tasks arbitrary: h)
  case Nil
  then show ?case by simp
next
  case (Cons task rest)
  show ?case
  proof (cases "map_of ((h @ [h ! task]) ! task) ''name''")
    case None
    then show ?thesis by (simp add: Let_def)
  next
    case (Some v)
    let ?h2 = "h @ [dict_set (h ! task) ''name'' (Str (task_prefix m @ name @ '':'' @ py_format v))]"
    obtain new where "store_after (gather_addon m name rest ending ?h2) = ?h2 @ new"
      using Cons.IH by blast
    then show ?thesis
      unfolding gather_addon_Cons using Some by (simp add: Let_def)
  qed
qed

lemma gather_addon_events:
  "CallOp n a \<notin> set (events (gather_addon m name tasks ending h))"
proof (induction tasks arbitrary: h)
  case Nil
  then show ?case by simp
next
  case (Cons task rest)
  show ?case
    unfolding gather_addon_Cons
    by (cases "map_of ((h @ [h ! task]) ! task) ''name''") (simp_all add: Cons.IH Let_def)
qed


lemma gather_loop_Cons:
  "gather_loop m attr ((name, addon) # rest) h =
     (if attr \<notin> set (addon_all addon) then gather_loop m attr rest h
      else
        (let r1 = gather_addon m name (fst (getattr_call addon attr))
                    (snd (getattr_call addon attr)) h;
             evs1 = CallOp name attr # events r1 @ log_error attr name (raised r1)
         in if raised r1 \<noteq> None \<and> strict m
            then (yielded r1, raised r1, store_after r1, evs1)
            else
              (let r2 = gather_loop m attr rest (store_after r1)
               in (yielded r1 @ yielded r2, raised r2, store_after r2, evs1 @ events r2))))"
  by (auto simp: Let_def log_error_def split: prod.splits option.splits)

lemma gather_loop_append:
  "gather_loop m attr (xs @ ys) h =
     (let r1 = gather_loop m attr xs h
      in if raised r1 \<noteq> None then r1
         else
           (let r2 = gather_loop m attr ys (store_after r1)
            in (yielded r1 @ yielded r2, raised r2, store_after r2, events r1 @ events r2)))"
proof (induction xs arbitrary: h)
  case Nil
  then show ?case by (simp add: Let_def result_collapse)
next
  case (Cons x xs)
  obtain name addon where x: "x = (name, addon)" by (cases x)
  show ?case
    unfolding x append_Cons gather_loop_Cons
    by (auto simp: Cons.IH Let_def)
qed

lemma gather_loop_lenient:
  "\<not> strict m \<Longrightarrow> raised (gather_loop m attr addons h) = None"
proof (induction addons arbitrary: h)
  case Nil
  then show ?case by simp
next
  case (Cons x xs)
  obtain name addon where x: "x = (name, addon)" by (cases x)
  show ?case
    unfolding x gather_loop_Cons
    using Cons.prems by (simp add: Cons.IH Let_def)
qed

lemma gather_loop_store:
  "\<exists>new. store_after (gather_loop m attr addons h) = h @ new"
proof (induction addons arbitrary: h)
  case Nil
  then show ?case by simp
next
  case (Cons x xs)
  obtain name addon where x: "x = (name, addon)" by (cases x)
  let ?r1 = "gather_addon m name (fst (getattr_call addon attr)) (snd (getattr_call addon attr)) h"
  obtain new1 where new1: "store_after ?r1 = h @ new1"
    using gather_addon_store by blast
  obtain new2 where new2:
    "store_after (gather_loop m attr xs (store_after ?r1)) = store_after ?r1 @ new2"
    using Cons.IH by blast
  show ?case
    unfolding x gather_loop_Cons
    using Cons.IH [of h] new1 new2 by (auto simp: Let_def)
qed

lemma gather_loop_events:
  "CallOp n a \<in> set (events (gather_loop m attr addons h)) \<Longrightarrow>
     a = attr \<and> (\<exists>P. (n, P) \<in> set addons \<and> attr \<in> set (addon_all P))"
proof (induction addons arbitrary: h)
  case Nil
  then show ?case by simp
next
  case (Cons x xs)
  obtain name addon where x: "x = (name, addon)" by (cases x)
  show ?case
    using Cons.prems Cons.IH
    unfolding x gather_loop_Cons
    by (auto simp: Let_def gather_addon_events log_error_def split: if_splits option.splits)
qed


lemma gather_loop_stop:
  assumes "attr \<in> set (addon_all addon)"
    and "raised (gather_addon m name (fst (getattr_call addon attr))
                   (snd (getattr_call addon attr)) h) \<noteq> None"
    and "strict m"
  shows "gather_loop m attr ((name, addon) # rest) h =
     (let r1 = gather_addon m name (fst (getattr_call addon attr))
                 (snd (getattr_call addon attr)) h
      in (yielded r1, raised r1, store_after r1,
          CallOp name attr # events r1 @ log_error attr name (raised r1)))"
  unfolding gather_loop_Cons using assms by (auto simp: Let_def)

lemma gather_loop_go:
  assumes "attr \<in> set (addon_all addon)"
    and "raised (gather_addon m name (fst (getattr_call addon attr))
                   (snd (getattr_call addon attr)) h) = None \<or> \<not> strict m"
  shows "gather_loop m attr ((name, addon) # rest) h =
     (let r1 = gather_addon m name (fst (getattr_call addon attr))
                 (snd (getattr_call addon attr)) h;
          r2 = gather_loop m attr rest (store_after r1)
      in (yielded r1 @ yielded r2, raised r2, store_after r2,
          (CallOp name attr # events r1 @ log_error attr name (raised r1)) @ events r2))"
  unfolding gather_loop_Cons using assms by (auto simp: Let_def)


lemma gather_addon_yielded:
  assumes wf: "\<forall>t \<in> set tasks. t < length h"
    and p: "p \<in> set (yielded (gather_addon m name tasks ending h))"
  shows "length h \<le> p \<and> p < length (store_after (gather_addon m name tasks ending h)) \<and>
         (\<exists>t \<in> set tasks. \<exists>v. map_of (h ! t) ''name'' = Some v \<and>
            store_after (gather_addon m name tasks ending h) ! p =
              dict_set (h ! t) ''name'' (Str (task_prefix m @ name @ '':'' @ py_format v)))"
proof -
  let ?ok = "takeWhile (has_name h) tasks"
  from p have range: "length h \<le> p" "p < length h + length ?ok"
    unfolding gather_addon_closed [OF wf] by auto
  define i where "i = p - length h"
  have i: "p = length h + i" "i < length ?ok"
    using range by (simp_all add: i_def)
  have mem: "?ok ! i \<in> set ?ok" using i by simp
  then have t: "?ok ! i \<in> set tasks" and named: "has_name h (?ok ! i)"
    by (auto dest: set_takeWhileD)
  from named obtain v where v: "map_of (h ! (?ok ! i)) ''name'' = Some v"
    by (auto simp: has_name_def)
  have "store_after (gather_addon m name tasks ending h) ! p = patched m name (h ! (?ok ! i))"
    unfolding gather_addon_closed [OF wf] using i by (simp add: nth_append)
  then have "store_after (gather_addon m name tasks ending h) ! p =
      dict_set (h ! (?ok ! i)) ''name'' (Str (task_prefix m @ name @ '':'' @ py_format v))"
    by (simp add: patched_def patched_name_def v)
  moreover have "p < length (store_after (gather_addon m name tasks ending h))"
    unfolding gather_addon_closed [OF wf] using i by simp
  ultimately show ?thesis using i t v by auto
qed

lemma gather_loop_yielded:
  assumes "descriptors_in_store attr addons h"
    and "p \<in> set (yielded (gather_loop m attr addons h))"
  shows "length h \<le> p \<and> p < length (store_after (gather_loop m attr addons h)) \<and>
         (\<exists>(name, addon) \<in> set addons. attr \<in> set (addon_all addon) \<and>
            (\<exists>t \<in> set (fst (getattr_call addon attr)). \<exists>v.
               map_of (h ! t) ''name'' = Some v \<and>
               store_after (gather_loop m attr addons h) ! p =
                 dict_set (h ! t) ''name'' (Str (task_prefix m @ name @ '':'' @ py_format v))))"
  using assms
proof (induction addons arbitrary: h)
  case Nil
  then show ?case by simp
next
  case (Cons x xs)
  obtain name addon where x: "x = (name, addon)" by (cases x)
  have wf_xs: "\<And>h'. length h \<le> length h' \<Longrightarrow> descriptors_in_store attr xs h'"
    using Cons.prems(1) by (fastforce simp: descriptors_in_store_def)
  show ?case
  proof (cases "attr \<in> set (addon_all addon)")
    case False
    then have eq: "gather_loop m attr (x # xs) h = gather_loop m attr xs h"
      by (simp add: x)
    show ?thesis
      using Cons.IH [OF wf_xs [of h]] Cons.prems(2) unfolding eq by auto
  next
    case True
    let ?tasks = "fst (getattr_call addon attr)"
    let ?r1 = "gather_addon m name ?tasks (snd (getattr_call addon attr)) h"
    let ?r2 = "gather_loop m attr xs (store_after ?r1)"
    have wf1: "\<forall>t \<in> set ?tasks. t < length h"
      using Cons.prems(1) True by (auto simp: descriptors_in_store_def x)
    obtain new1 where new1: "store_after ?r1 = h @ new1"
      using gather_addon_store by blast
    obtain new2 where new2: "store_after ?r2 = store_after ?r1 @ new2"
      using gather_loop_store by blast
    have first: "length h \<le> p \<and> p < length (store_after ?r1) \<and>
         (\<exists>t \<in> set ?tasks. \<exists>v. map_of (h ! t) ''name'' = Some v \<and>
            store_after ?r1 ! p =
              dict_set (h ! t) ''name'' (Str (task_prefix m @ name @ '':'' @ py_format v)))"
      if "p \<in> set (yielded ?r1)"
      using gather_addon_yielded [OF wf1 that] .
    show ?thesis
    proof (cases "raised ?r1 \<noteq> None \<and> strict m")
      case stop: True
      then have eq: "gather_loop m attr (x # xs) h =
          (yielded ?r1, raised ?r1, store_after ?r1,
           CallOp name attr # events ?r1 @ log_error attr name (raised ?r1))"
        unfolding x using gather_loop_stop [OF True, of m name h xs] by (simp add: Let_def)
      show ?thesis
        using first Cons.prems(2) True unfolding eq by (auto simp: x)
    next
      case go: False
      then have eq: "gather_loop m attr (x # xs) h =
          (yielded ?r1 @ yielded ?r2, raised ?r2, store_after ?r2,
           (CallOp name attr # events ?r1 @ log_error attr name (raised ?r1)) @ events ?r2)"
        unfolding x using gather_loop_go [OF True, of m name h xs] by (simp add: Let_def)
      from Cons.prems(2) consider "p \<in> set (yielded ?r1)" | "p \<in> set (yielded ?r2)"
        unfolding eq by auto
      then show ?thesis
      proof cases
        case 1
        from first [OF 1] show ?thesis
          unfolding eq using True by (auto simp: x new2 nth_append)
      next
        case 2
        have len: "length h \<le> length (store_after ?r1)" by (simp add: new1)
        from Cons.IH [OF wf_xs [OF len] 2]
        obtain n P t v where
          range: "length (store_after ?r1) \<le> p" "p < length (store_after ?r2)"
          and nP: "(n, P) \<in> set xs" "attr \<in> set (addon_all P)"
          and t: "t \<in> set (fst (getattr_call P attr))"
          and v: "map_of (store_after ?r1 ! t) ''name'' = Some v"
          and st: "store_after ?r2 ! p =
                 dict_set (store_after ?r1 ! t) ''name'' (Str (task_prefix m @ n @ '':'' @ py_format v))"
          by auto
        have "t < length h"
          using Cons.prems(1) nP t by (auto simp: descriptors_in_store_def)
        then have same: "store_after ?r1 ! t = h ! t" by (simp add: new1 nth_append)
        have "\<exists>(name, addon) \<in> set (x # xs). attr \<in> set (addon_all addon) \<and>
            (\<exists>t \<in> set (fst (getattr_call addon attr)). \<exists>v.
               map_of (h ! t) ''name'' = Some v \<and>
               store_after ?r2 ! p =
                 dict_set (h ! t) ''name'' (Str (task_prefix m @ name @ '':'' @ py_format v)))"
          by (rule bexI [of _ "(n, P)"]) (use nP t v st same in auto)
        then show ?thesis
          unfolding eq using range len by simp
      qed
    qed
  qed
qed

lemma takeWhile_done:
  assumes "\<forall>t \<in> set done. P t" and "rest = [] \<or> \<not> P (hd rest)"
  shows "takeWhile P (done @ rest) = done"
  using assms by (cases rest) (simp_all add: takeWhile_append2)

lemma map_of_dict_set:
  "map_of (dict_set d k v) k' = (if k' = k then Some v else map_of d k')"
  by (induction d) auto

lemma gather_addon_fresh:
  "sorted_wrt (<) (yielded (gather_addon m name tasks ending h)) \<and>
   (\<forall>p \<in> set (yielded (gather_addon m name tasks ending h)).
      length h \<le> p \<and> p < length (store_after (gather_addon m name tasks ending h)))"
proof (induction tasks arbitrary: h)
  case Nil
  then show ?case by simp
next
  case (Cons task rest)
  show ?case
  proof (cases "map_of ((h @ [h ! task]) ! task) ''name''")
    case None
    then show ?thesis unfolding gather_addon_Cons by simp
  next
    case (Some v)
    let ?h2 = "h @ [dict_set (h ! task) ''name'' (Str (task_prefix m @ name @ '':'' @ py_format v))]"
    let ?r = "gather_addon m name rest ending ?h2"
    have IH: "sorted_wrt (<) (yielded ?r)"
      "\<And>p. p \<in> set (yielded ?r) \<Longrightarrow> length ?h2 \<le> p \<and> p < length (store_after ?r)"
      using Cons.IH [of ?h2] by auto
    obtain new where new: "store_after ?r = ?h2 @ new"
      using gather_addon_store by blast
    have "length h < length (store_after ?r)"
      using arg_cong [OF new, of length] by simp
    then show ?thesis
      unfolding gather_addon_Cons using Some IH by (fastforce simp: Let_def)
  qed
qed

lemma gather_loop_fresh:
  "sorted_wrt (<) (yielded (gather_loop m attr addons h)) \<and>
   (\<forall>p \<in> set (yielded (gather_loop m attr addons h)).
      length h \<le> p \<and> p < length (store_after (gather_loop m attr addons h)))"
proof (induction addons arbitrary: h)
  case Nil
  then show ?case by simp
next
  case (Cons x xs)
  obtain name addon where x: "x = (name, addon)" by (cases x)
  let ?r1 = "gather_addon m name (fst (getattr_call addon attr)) (snd (getattr_call addon attr)) h"
  let ?r2 = "gather_loop m attr xs (store_after ?r1)"
  obtain new1 where new1: "store_after ?r1 = h @ new1"
    using gather_addon_store by blast
  obtain new2 where new2: "store_after ?r2 = store_after ?r1 @ new2"
    using gather_loop_store by blast
  have len1: "length h \<le> length (store_after ?r1)"
    using arg_cong [OF new1, of length] by simp
  have len2: "length (store_after ?r1) \<le> length (store_after ?r2)"
    using arg_cong [OF new2, of length] by simp
  have f1: "sorted_wrt (<) (yielded ?r1)"
    "\<And>p. p \<in> set (yielded ?r1) \<Longrightarrow> length h \<le> p \<and> p < length (store_after ?r1)"
    using gather_addon_fresh [of m name _ _ h] by auto
  have f2: "sorted_wrt (<) (yielded ?r2)"
    "\<And>p. p \<in> set (yielded ?r2) \<Longrightarrow> length (store_after ?r1) \<le> p \<and> p < length (store_after ?r2)"
    using Cons.IH [of "store_after ?r1"] by auto
  have both: "sorted_wrt (<) (yielded ?r1 @ yielded ?r2)"
    using f1 f2 by (fastforce simp: sorted_wrt_append)
  have range: "length h \<le> p \<and> p < length (store_after ?r2)"
    if "p \<in> set (yielded ?r1 @ yielded ?r2)" for p
    using that f1(2) [of p] f2(2) [of p] len1 len2 by auto
  show ?case
    unfolding x gather_loop_Cons
    using Cons.IH [of h] f1 both range by (auto simp: Let_def)
qed

lemma gather_stop:
  fixes m :: manager and before :: "(string \<times> addon) list" and attr name :: string
    and h :: heap and addon :: addon
  defines "r0 \<equiv> gather m before attr h"
  defines "r1 \<equiv> gather_addon m name (fst (getattr_call addon attr))
                  (snd (getattr_call addon attr)) (store_after r0)"
  assumes "strict m"
    and "raised r0 = None"
    and "attr \<in> set (addon_all addon)"
    and "raised r1 = Some error"
  shows "gather m (before @ (name, addon) # after) attr h =
           (yielded r0 @ yielded r1,
            Some error,
            store_after r1,
            events r0 @ CallOp name attr # events r1
              @ [LogError (''[lite] ['' @ attr @ ''] ['' @ name @ ''] [ERR] '' @ str_exn error)])"
proof -
  have stop: "gather_loop m attr ((name, addon) # after) (store_after r0) =
      (yielded r1, Some error, store_after r1,
       CallOp name attr # events r1
         @ [LogError (''[lite] ['' @ attr @ ''] ['' @ name @ ''] [ERR] '' @ str_exn error)])"
    using gather_loop_stop [of attr addon m name "store_after r0" after] assms(3-6)
    by (simp add: r1_def r0_def gather_def Let_def log_error_def)
  show ?thesis
    unfolding gather_def gather_loop_append
    using assms(4) stop
    by (simp add: Let_def r0_def gather_def)
qed

lemma gather_go:
  fixes m :: manager and before after :: "(string \<times> addon) list" and attr name :: string
    and h :: heap and addon :: addon
  defines "r0 \<equiv> gather m before attr h"
  defines "r1 \<equiv> gather_addon m name (fst (getattr_call addon attr))
                  (snd (getattr_call addon attr)) (store_after r0)"
  defines "r2 \<equiv> gather m after attr (store_after r1)"
  assumes "raised r0 = None"
    and "attr \<in> set (addon_all addon)"
    and "raised r1 = None \<or> \<not> strict m"
  shows "gather m (before @ (name, addon) # after) attr h =
           (yielded r0 @ yielded r1 @ yielded r2,
            raised r2,
            store_after r2,
            events r0 @ CallOp name attr # events r1 @ log_error attr name (raised r1)
              @ events r2)"
proof -
  have go: "gather_loop m attr ((name, addon) # after) (store_after r0) =
      (yielded r1 @ yielded r2, raised r2, store_after r2,
       CallOp name attr # events r1 @ log_error attr name (raised r1) @ events r2)"
    using gather_loop_go [of attr addon m name "store_after r0" after] assms(5,6)
    by (simp add: r2_def r1_def r0_def gather_def Let_def)
  show ?thesis
    unfolding gather_def gather_loop_append
    using assms(4) go by (simp add: Let_def r0_def gather_def)
qed

lemma gather_skip:
  assumes "raised (gather m before attr h) = None"
    and "attr \<notin> set (addon_all addon)"
  shows "gather m (before @ (name, addon) # after) attr h = gather m (before @ after) attr h"
  unfolding gather_def gather_loop_append [of m attr before]
  using assms(2) by (simp add: Let_def)

lemma gather_lenient: "\<not> strict m \<Longrightarrow> raised (gather m addons attr h) = None"
  by (simp add: gather_def gather_loop_lenient)

lemma run_generator_attr:
  "run_generator m addons g h = gather m addons (generator_attr g) h"
  by (cases g) simp_all

lemma gather_yields_copy:
  fixes m :: manager and before after :: "(string \<times> addon) list" and attr name :: string
    and h :: heap and addon :: addon
  defines "r \<equiv> gather m (before @ (name, addon) # after) attr h"
  assumes wf: "descriptors_in_store attr (before @ (name, addon) # after) h"
    and reached: "raised (gather m before attr h) = None"
    and cap: "attr \<in> set (addon_all addon)"
    and seq: "fst (getattr_call addon attr) = done @ rest"
    and named: "\<forall>task \<in> set done. map_of (h ! task) ''name'' \<noteq> None"
    and i: "i < length done"
  shows "\<exists>p \<in> set (yielded r). \<exists>v.
           map_of (h ! (done ! i)) ''name'' = Some v \<and>
           store_after r ! p =
             dict_set (h ! (done ! i)) ''name'' (Str (task_prefix m @ name @ '':'' @ py_format v))"
proof -
  let ?r0 = "gather m before attr h"
  let ?h0 = "store_after ?r0"
  let ?tasks = "fst (getattr_call addon attr)"
  let ?r1 = "gather_addon m name ?tasks (snd (getattr_call addon attr)) ?h0"
  obtain new0 where new0: "?h0 = h @ new0"
    unfolding gather_def using gather_loop_store by blast
  have in_h: "\<forall>t \<in> set ?tasks. t < length h"
    using wf cap by (auto simp: descriptors_in_store_def)
  then have wf0: "\<forall>t \<in> set ?tasks. t < length ?h0"
    using arg_cong [OF new0, of length] by auto
  have same: "?h0 ! t = h ! t" if "t \<in> set ?tasks" for t
    using that in_h by (simp add: new0 nth_append)
  have "\<forall>t \<in> set done. has_name ?h0 t"
    using named same seq by (auto simp: has_name_def)
  then have ok: "takeWhile (has_name ?h0) ?tasks = done @ takeWhile (has_name ?h0) rest"
    unfolding seq by (simp add: takeWhile_append2)
  note closed = gather_addon_closed [OF wf0, of m name "snd (getattr_call addon attr)", unfolded ok]
  define p where "p = length ?h0 + i"
  have p1: "p \<in> set (yielded ?r1)"
    unfolding closed p_def using i by simp
  have len1: "p < length (store_after ?r1)"
    unfolding closed p_def using i by simp
  have di: "done ! i \<in> set ?tasks"
    using i by (simp add: seq)
  from named i obtain v where v: "map_of (h ! (done ! i)) ''name'' = Some v"
    by (metis nth_mem not_None_eq)
  have cell1: "store_after ?r1 ! p = patched m name (h ! (done ! i))"
    unfolding closed p_def using i same [OF di] by (simp add: nth_append)
  have both: "p \<in> set (yielded r) \<and> store_after r ! p = store_after ?r1 ! p"
  proof (cases "raised ?r1 \<noteq> None \<and> strict m")
    case True
    then obtain error where error: "raised ?r1 = Some error" by auto
    have "r = (yielded ?r0 @ yielded ?r1, Some error, store_after ?r1,
            events ?r0 @ CallOp name attr # events ?r1
              @ [LogError (''[lite] ['' @ attr @ ''] ['' @ name @ ''] [ERR] '' @ str_exn error)])"
      unfolding r_def by (rule gather_stop) (use True reached cap error in simp_all)
    then show ?thesis using p1 by simp
  next
    case False
    let ?r2 = "gather m after attr (store_after ?r1)"
    obtain new2 where new2: "store_after ?r2 = store_after ?r1 @ new2"
      unfolding gather_def using gather_loop_store by blast
    have "r = (yielded ?r0 @ yielded ?r1 @ yielded ?r2, raised ?r2, store_after ?r2,
            events ?r0 @ CallOp name attr # events ?r1 @ log_error attr name (raised ?r1)
              @ events ?r2)"
      unfolding r_def by (rule gather_go) (use False reached cap in auto)
    then show ?thesis using p1 len1 by (simp add: new2 nth_append)
  qed
  show ?thesis
    by (rule bexI [of _ p], rule exI [of _ v])
       (use both v cell1 in \<open>simp_all add: patched_def patched_name_def\<close>)
qed

lemma gather_polled_copies:
  fixes m :: manager and before after :: "(string \<times> addon) list" and attr name :: string
    and h :: heap and addon :: addon
  defines "r0 \<equiv> gather m before attr h"
  defines "r \<equiv> gather m (before @ (name, addon) # after) attr h"
  defines "tasks \<equiv> fst (getattr_call addon attr)"
  assumes wf: "descriptors_in_store attr (before @ (name, addon) # after) h"
    and reached: "raised r0 = None"
    and cap: "attr \<in> set (addon_all addon)"
  shows "(\<exists>later. yielded r =
            yielded r0
            @ [length (store_after r0) ..<
               length (store_after r0) + length (takeWhile (has_name h) tasks)]
            @ later)
       \<and> (\<forall>i < length (takeWhile (has_name h) tasks). \<exists>v.
            map_of (h ! (tasks ! i)) ''name'' = Some v \<and>
            store_after r ! (length (store_after r0) + i) =
              dict_set (h ! (tasks ! i)) ''name''
                (Str (task_prefix m @ name @ '':'' @ py_format v)))"
proof -
  let ?h0 = "store_after r0"
  let ?r1 = "gather_addon m name tasks (snd (getattr_call addon attr)) ?h0"
  let ?ok = "takeWhile (has_name h) tasks"
  obtain new0 where new0: "?h0 = h @ new0"
    unfolding r0_def gather_def using gather_loop_store by blast
  have in_h: "\<forall>t \<in> set tasks. t < length h"
    using wf cap by (auto simp: descriptors_in_store_def tasks_def)
  then have wf0: "\<forall>t \<in> set tasks. t < length ?h0"
    using arg_cong [OF new0, of length] by auto
  have same: "?h0 ! t = h ! t" if "t \<in> set tasks" for t
    using that in_h by (simp add: new0 nth_append)
  have tw: "takeWhile (has_name ?h0) tasks = ?ok"
    by (rule takeWhile_cong) (simp_all add: has_name_def same)
  note closed = gather_addon_closed [OF wf0, of m name "snd (getattr_call addon attr)", unfolded tw]
  have y1: "yielded ?r1 = [length ?h0 ..< length ?h0 + length ?ok]"
    by (simp add: closed)
  have cell1: "store_after ?r1 ! (length ?h0 + i) = patched m name (h ! (tasks ! i))"
    and len1: "length ?h0 + i < length (store_after ?r1)"
    and named: "has_name h (tasks ! i)"
    if i: "i < length ?ok" for i
  proof -
    have nth: "?ok ! i = tasks ! i" using i by (rule takeWhile_nth)
    have mem: "?ok ! i \<in> set ?ok" using i by simp
    then have "?ok ! i \<in> set tasks" by (auto dest: set_takeWhileD)
    then have "?h0 ! (?ok ! i) = h ! (?ok ! i)" by (rule same)
    then show "store_after ?r1 ! (length ?h0 + i) = patched m name (h ! (tasks ! i))"
      unfolding closed using i nth by (simp add: nth_append)
    show "length ?h0 + i < length (store_after ?r1)"
      unfolding closed using i by simp
    show "has_name h (tasks ! i)"
      using mem nth by (auto dest: set_takeWhileD)
  qed
  have both: "(\<exists>later. yielded r = yielded r0 @ yielded ?r1 @ later)
      \<and> (\<forall>p < length (store_after ?r1). store_after r ! p = store_after ?r1 ! p)"
  proof (cases "raised ?r1 \<noteq> None \<and> strict m")
    case True
    then obtain error where error: "raised ?r1 = Some error" by auto
    have "r = (yielded r0 @ yielded ?r1, Some error, store_after ?r1,
            events r0 @ CallOp name attr # events ?r1
              @ [LogError (''[lite] ['' @ attr @ ''] ['' @ name @ ''] [ERR] '' @ str_exn error)])"
      unfolding r_def r0_def tasks_def
      by (rule gather_stop) (use True reached cap error in \<open>simp_all add: r0_def tasks_def\<close>)
    then show ?thesis by simp
  next
    case False
    let ?r2 = "gather m after attr (store_after ?r1)"
    obtain new2 where new2: "store_after ?r2 = store_after ?r1 @ new2"
      unfolding gather_def using gather_loop_store by blast
    have "r = (yielded r0 @ yielded ?r1 @ yielded ?r2, raised ?r2, store_after ?r2,
            events r0 @ CallOp name attr # events ?r1 @ log_error attr name (raised ?r1)
              @ events ?r2)"
      unfolding r_def r0_def tasks_def
      by (rule gather_go) (use False reached cap in \<open>auto simp: r0_def tasks_def\<close>)
    then show ?thesis by (simp add: new2 nth_append)
  qed
  have copies: "\<exists>v. map_of (h ! (tasks ! i)) ''name'' = Some v \<and>
            store_after r ! (length ?h0 + i) =
              dict_set (h ! (tasks ! i)) ''name''
                (Str (task_prefix m @ name @ '':'' @ py_format v))"
    if i: "i < length ?ok" for i
  proof -
    from named [OF i] obtain v where v: "map_of (h ! (tasks ! i)) ''name'' = Some v"
      by (auto simp: has_name_def)
    have "store_after r ! (length ?h0 + i) = patched m name (h ! (tasks ! i))"
      using both len1 [OF i] cell1 [OF i] by simp
    then show ?thesis
      using v by (simp add: patched_def patched_name_def)
  qed
  show ?thesis
    using both copies unfolding y1 by blast
qed

subsection \<open>The names a generator yields\<close>

lemma patched_name_original:
  "patched_name m name (h ! task) = task_prefix m @ name @ '':'' @ original_name h task"
  by (simp add: patched_name_def original_name_def)

lemma colon_free_inj:
  assumes "CHR '':'' \<notin> set n1" and "CHR '':'' \<notin> set n2"
    and "n1 @ '':'' @ o1 = n2 @ '':'' @ o2"
  shows "n1 = n2 \<and> o1 = o2"
  using assms
proof (induction n1 arbitrary: n2)
  case Nil
  then show ?case by (cases n2) auto
next
  case (Cons c n1)
  then show ?case by (cases n2) auto
qed

lemma gather_addon_names:
  assumes "\<forall>t \<in> set tasks. t < length h"
  shows "yielded_names (gather_addon m name tasks ending h) =
     map (\<lambda>t. Some (Str (patched_name m name (h ! t)))) (takeWhile (has_name h) tasks)"
proof -
  let ?ok = "takeWhile (has_name h) tasks"
  have "map (\<lambda>p. map_of (store_after (gather_addon m name tasks ending h) ! p) ''name'')
          [length h ..< length h + length ?ok] =
        map (\<lambda>t. Some (Str (patched_name m name (h ! t)))) ?ok"
    unfolding gather_addon_closed [OF assms]
    by (rule nth_equalityI) (simp_all add: nth_append patched_def map_of_dict_set)
  then show ?thesis
    unfolding yielded_names_def by (simp add: gather_addon_closed [OF assms])
qed

lemma gather_addon_raised:
  assumes "\<forall>t \<in> set tasks. t < length h"
  shows "raised (gather_addon m name tasks ending h) =
     (if length (takeWhile (has_name h) tasks) < length tasks
      then Some (KeyError ''name'') else ending)"
  by (simp add: gather_addon_closed [OF assms])


lemma yielded_names_append:
  assumes "\<forall>p \<in> set ys1. p < length h1"
  shows "yielded_names (ys1 @ ys2, r, h1 @ new, evs) =
         yielded_names (ys1, r', h1, evs') @ yielded_names (ys2, r, h1 @ new, evs)"
  using assms by (simp add: yielded_names_def nth_append)

lemma yielded_names_cong:
  "yielded_names (ys, r, h, evs) = yielded_names (ys, r', h, evs')"
  by (simp add: yielded_names_def)

lemma gather_addon_contributed:
  assumes wf: "\<forall>t \<in> set (fst (getattr_call addon attr)). t < length h"
    and cap: "attr \<in> set (addon_all addon)"
  shows "yielded_names (gather_addon m name (fst (getattr_call addon attr))
                          (snd (getattr_call addon attr)) (h @ e)) =
         contributed m h attr (name, addon)"
    and "raised (gather_addon m name (fst (getattr_call addon attr))
                   (snd (getattr_call addon attr)) (h @ e)) =
         (if length (takeWhile (has_name h) (fst (getattr_call addon attr)))
               < length (fst (getattr_call addon attr))
          then Some (KeyError ''name'') else snd (getattr_call addon attr))"
proof -
  let ?tasks = "fst (getattr_call addon attr)"
  have wf': "\<forall>t \<in> set ?tasks. t < length (h @ e)" using wf by auto
  have same: "\<And>t. t \<in> set ?tasks \<Longrightarrow> (h @ e) ! t = h ! t"
    using wf by (simp add: nth_append)
  have tw: "takeWhile (has_name (h @ e)) ?tasks = takeWhile (has_name h) ?tasks"
    by (rule takeWhile_cong) (simp_all add: has_name_def same)
  have sub: "\<And>t. t \<in> set (takeWhile (has_name h) ?tasks) \<Longrightarrow> t \<in> set ?tasks"
    by (auto dest: set_takeWhileD)
  show "yielded_names (gather_addon m name ?tasks (snd (getattr_call addon attr)) (h @ e)) =
         contributed m h attr (name, addon)"
    unfolding gather_addon_names [OF wf'] tw contributed_def
    using cap by (simp add: patched_name_def original_name_def same sub cong: map_cong)
  show "raised (gather_addon m name ?tasks (snd (getattr_call addon attr)) (h @ e)) =
         (if length (takeWhile (has_name h) ?tasks) < length ?tasks
          then Some (KeyError ''name'') else snd (getattr_call addon attr))"
    unfolding gather_addon_raised [OF wf'] tw ..
qed

lemma gather_loop_names:
  assumes "descriptors_in_store attr addons h"
  shows "\<exists>k. \<forall>e. yielded_names (gather_loop m attr addons (h @ e)) =
                  concat (map (contributed m h attr) (take k addons))"
  using assms
proof (induction addons)
  case Nil
  then show ?case by (simp add: yielded_names_def)
next
  case (Cons x xs)
  obtain name addon where x: "x = (name, addon)" by (cases x)
  have wf_xs: "descriptors_in_store attr xs h"
    using Cons.prems by (simp add: descriptors_in_store_def)
  from Cons.IH [OF wf_xs] obtain k where
    k: "\<And>e. yielded_names (gather_loop m attr xs (h @ e)) =
             concat (map (contributed m h attr) (take k xs))"
    by blast
  let ?tasks = "fst (getattr_call addon attr)"
  let ?ending = "snd (getattr_call addon attr)"
  show ?case
  proof (cases "attr \<in> set (addon_all addon)")
    case False
    have "yielded_names (gather_loop m attr (x # xs) (h @ e)) =
          concat (map (contributed m h attr) (take (Suc k) (x # xs)))" for e
      using False k [of e] by (simp add: x contributed_def)
    then show ?thesis by blast
  next
    case True
    have wf: "\<forall>t \<in> set ?tasks. t < length h"
      using Cons.prems True by (auto simp: descriptors_in_store_def x)
    let ?r1 = "\<lambda>e. gather_addon m name ?tasks ?ending (h @ e)"
    note c = gather_addon_contributed [OF wf True, of m name]
    show ?thesis
    proof (cases "(if length (takeWhile (has_name h) ?tasks) < length ?tasks
                   then Some (KeyError ''name'') else ?ending) \<noteq> None \<and> strict m")
      case stop: True
      have "yielded_names (gather_loop m attr (x # xs) (h @ e)) =
            concat (map (contributed m h attr) (take (Suc 0) (x # xs)))" for e
      proof -
        have "gather_loop m attr (x # xs) (h @ e) =
            (yielded (?r1 e), raised (?r1 e), store_after (?r1 e),
             CallOp name attr # events (?r1 e) @ log_error attr name (raised (?r1 e)))"
          unfolding x using gather_loop_stop [OF True, of m name "h @ e" xs] stop
          by (simp add: c(2) Let_def)
        then have "yielded_names (gather_loop m attr (x # xs) (h @ e)) = yielded_names (?r1 e)"
          by (simp add: yielded_names_def)
        then show ?thesis by (simp add: c(1) x)
      qed
      then show ?thesis by blast
    next
      case go: False
      have "yielded_names (gather_loop m attr (x # xs) (h @ e)) =
            concat (map (contributed m h attr) (take (Suc k) (x # xs)))" for e
      proof -
        let ?r2 = "gather_loop m attr xs (store_after (?r1 e))"
        obtain new1 where new1: "store_after (?r1 e) = (h @ e) @ new1"
          using gather_addon_store by blast
        obtain new2 where new2: "store_after ?r2 = store_after (?r1 e) @ new2"
          using gather_loop_store by blast
        have whole: "gather_loop m attr (x # xs) (h @ e) =
            (yielded (?r1 e) @ yielded ?r2, raised ?r2, store_after (?r1 e) @ new2,
             (CallOp name attr # events (?r1 e) @ log_error attr name (raised (?r1 e)))
               @ events ?r2)"
          unfolding x using gather_loop_go [OF True, of m name "h @ e" xs] go
          by (simp add: c(2) Let_def new2)
        have range: "\<forall>p \<in> set (yielded (?r1 e)). p < length (store_after (?r1 e))"
          using gather_addon_fresh [of m name ?tasks ?ending "h @ e"] by blast
        have first: "yielded_names (yielded (?r1 e), raised (?r1 e), store_after (?r1 e),
              events (?r1 e)) = contributed m h attr (name, addon)"
          by (simp add: result_collapse c(1))
        have second: "yielded_names (yielded ?r2, r, store_after (?r1 e) @ new2, evs) =
            concat (map (contributed m h attr) (take k xs))" for r evs
        proof -
          have "yielded_names ?r2 = concat (map (contributed m h attr) (take k xs))"
            using k [of "e @ new1"] by (simp add: new1)
          moreover have "yielded_names (yielded ?r2, r, store_after (?r1 e) @ new2, evs) =
              yielded_names ?r2"
            by (simp add: yielded_names_def new2)
          ultimately show ?thesis by simp
        qed
        show ?thesis
          unfolding whole
          by (subst yielded_names_append [OF range, where r' = "raised (?r1 e)"
                  and evs' = "events (?r1 e)"])
             (simp add: first second x)
      qed
      then show ?thesis by blast
    qed
  qed
qed

lemma contributed_subset:
  "set (contributed m h attr (name, addon)) \<subseteq>
     (\<lambda>orig. Some (Str (task_prefix m @ name @ '':'' @ orig))) ` set (polled_names h addon attr)"
  by (auto simp: contributed_def polled_names_def dest!: set_takeWhileD)

lemma filter_takeWhile_split:
  "filter P xs = takeWhile P xs @ filter P (dropWhile P xs)"
  by (induction xs) auto

lemma contributed_distinct:
  assumes "distinct (polled_names h addon attr)"
  shows "distinct (contributed m h attr (name, addon))"
proof (cases "attr \<in> set (addon_all addon)")
  case False
  then show ?thesis by (simp add: contributed_def)
next
  case True
  let ?tasks = "fst (getattr_call addon attr)"
  have "distinct (map (original_name h) (filter (has_name h) ?tasks))"
    using assms True by (simp add: polled_names_def)
  then have "distinct (map (original_name h) (takeWhile (has_name h) ?tasks))"
    by (subst (asm) filter_takeWhile_split) simp
  then have "distinct (map (\<lambda>orig. Some (Str (task_prefix m @ name @ '':'' @ orig)))
                 (map (original_name h) (takeWhile (has_name h) ?tasks)))"
    by (simp add: distinct_map inj_on_def)
  then show ?thesis
    using True by (simp add: contributed_def comp_def)
qed

lemma contributed_same_addon:
  assumes "y \<in> set (contributed m h attr1 (n1, a1))"
    and "y \<in> set (contributed m h attr2 (n2, a2))"
    and "CHR '':'' \<notin> set n1" and "CHR '':'' \<notin> set n2"
  shows "n1 = n2 \<and> (\<exists>orig. orig \<in> set (polled_names h a1 attr1) \<and>
                           orig \<in> set (polled_names h a2 attr2))"
proof -
  from assms(1) contributed_subset obtain o1 where
    o1: "o1 \<in> set (polled_names h a1 attr1)" "y = Some (Str (task_prefix m @ n1 @ '':'' @ o1))"
    by blast
  from assms(2) contributed_subset obtain o2 where
    o2: "o2 \<in> set (polled_names h a2 attr2)" "y = Some (Str (task_prefix m @ n2 @ '':'' @ o2))"
    by blast
  from o1(2) o2(2) have "n1 @ '':'' @ o1 = n2 @ '':'' @ o2" by simp
  from colon_free_inj [OF assms(3,4) this] show ?thesis
    using o1(1) o2(1) by auto
qed

lemma contributed_all_distinct:
  assumes "distinct (map fst addons)"
    and "\<forall>name \<in> fst ` set addons. CHR '':'' \<notin> set name"
    and "\<forall>(name, addon) \<in> set addons. distinct (polled_names h addon attr)"
  shows "distinct (concat (map (contributed m h attr) addons))"
  using assms
proof (induction addons)
  case Nil
  then show ?case by simp
next
  case (Cons x xs)
  obtain name addon where x: "x = (name, addon)" by (cases x)
  have here: "distinct (contributed m h attr x)"
    using Cons.prems(3) by (simp add: x contributed_distinct)
  have rest: "distinct (concat (map (contributed m h attr) xs))"
    using Cons.prems by (intro Cons.IH) auto
  have apart: "set (contributed m h attr x) \<inter> set (concat (map (contributed m h attr) xs)) = {}"
  proof (rule ccontr)
    assume "\<not> ?thesis"
    then obtain y n' a' where y: "y \<in> set (contributed m h attr (name, addon))"
      and other: "(n', a') \<in> set xs" "y \<in> set (contributed m h attr (n', a'))"
      by (auto simp: x)
    have "name = n'"
      using contributed_same_addon [OF y other(2)] Cons.prems(2) other(1)
      by (force simp: x)
    then show False
      using Cons.prems(1) other(1) by (force simp: x)
  qed
  show ?case using here rest apart by simp
qed

lemma contributed_apart:
  assumes "distinct (map fst addons)"
    and "\<forall>name \<in> fst ` set addons. CHR '':'' \<notin> set name"
    and "\<forall>(name, addon) \<in> set addons.
           set (polled_names h addon attr1) \<inter> set (polled_names h addon attr2) = {}"
  shows "set (concat (map (contributed m h attr1) addons))
           \<inter> set (concat (map (contributed m h attr2) addons)) = {}"
proof (rule ccontr)
  assume "\<not> ?thesis"
  then obtain y n1 a1 n2 a2 where
    one: "(n1, a1) \<in> set addons" "y \<in> set (contributed m h attr1 (n1, a1))"
    and two: "(n2, a2) \<in> set addons" "y \<in> set (contributed m h attr2 (n2, a2))"
    by auto
  have colon: "CHR '':'' \<notin> set n1" "CHR '':'' \<notin> set n2"
    using assms(2) one(1) two(1) by force+
  from contributed_same_addon [OF one(2) two(2) colon] obtain orig where
    same: "n1 = n2" and orig: "orig \<in> set (polled_names h a1 attr1)"
      "orig \<in> set (polled_names h a2 attr2)"
    by blast
  have "a1 = a2"
    using assms(1) one(1) two(1) same by (metis eq_key_imp_eq_value)
  then show False
    using assms(3) one(1) orig by auto
qed

lemma gather_names_prefix:
  assumes "descriptors_in_store attr addons h"
  shows "\<exists>k. yielded_names (gather m addons attr h) =
              concat (map (contributed m h attr) (take k addons))"
  using gather_loop_names [OF assms, of m]
  unfolding gather_def by (metis append_Nil2)

lemma gather_names_subset:
  assumes "descriptors_in_store attr addons h"
  shows "set (yielded_names (gather m addons attr h))
           \<subseteq> set (concat (map (contributed m h attr) addons))"
proof -
  from gather_names_prefix [OF assms, of m] obtain k where
    k: "yielded_names (gather m addons attr h) =
        concat (map (contributed m h attr) (take k addons))"
    by blast
  show ?thesis
    unfolding k using set_take_subset [of k addons] by auto
qed

lemma gather_names_distinct_one:
  assumes "descriptors_in_store attr addons h"
    and "distinct (concat (map (contributed m h attr) addons))"
  shows "distinct (yielded_names (gather m addons attr h))"
proof -
  from gather_names_prefix [OF assms(1), of m] obtain k where
    k: "yielded_names (gather m addons attr h) =
        concat (map (contributed m h attr) (take k addons))"
    by blast
  have "concat (map (contributed m h attr) addons) =
        concat (map (contributed m h attr) (take k addons))
        @ concat (map (contributed m h attr) (drop k addons))"
    by (metis append_take_drop_id concat_append map_append)
  then show ?thesis
    using assms(2) unfolding k by simp
qed

lemma gather_names_distinct_all:
  assumes "distinct (map fst addons)"
    and "\<forall>name \<in> fst ` set addons. CHR '':'' \<notin> set name"
    and "distinct attrs"
    and "\<forall>attr \<in> set attrs. descriptors_in_store attr addons h"
    and "\<forall>(name, addon) \<in> set addons. distinct (concat (map (polled_names h addon) attrs))"
  shows "distinct (concat (map (\<lambda>attr. yielded_names (gather m addons attr h)) attrs))"
  using assms(3-5)
proof (induction attrs)
  case Nil
  then show ?case by simp
next
  case (Cons a as)
  have own_a: "\<forall>(name, addon) \<in> set addons. distinct (polled_names h addon a)"
    using Cons.prems(3) by auto
  have own_as: "\<forall>(name, addon) \<in> set addons. distinct (concat (map (polled_names h addon) as))"
    using Cons.prems(3) by auto
  have here: "distinct (yielded_names (gather m addons a h))"
    using Cons.prems(2) contributed_all_distinct [OF assms(1,2) own_a]
    by (intro gather_names_distinct_one) auto
  have rest: "distinct (concat (map (\<lambda>attr. yielded_names (gather m addons attr h)) as))"
    using Cons.prems own_as by (intro Cons.IH) auto
  have apart: "set (yielded_names (gather m addons a h))
      \<inter> set (yielded_names (gather m addons a' h)) = {}" if a': "a' \<in> set as" for a'
  proof -
    have "\<forall>(name, addon) \<in> set addons.
           set (polled_names h addon a) \<inter> set (polled_names h addon a') = {}"
      using Cons.prems(3) a' by fastforce
    from contributed_apart [OF assms(1,2) this, of m]
    show ?thesis
      using gather_names_subset [of a addons h m] gather_names_subset [of a' addons h m]
        Cons.prems(2) a' by (auto simp del: set_concat)
  qed
  show ?case
    using here rest apart by auto
qed

subsection \<open>Evaluating the small site\<close>

lemmas site_defs =
  gather_def site_store_def contents_addon_def broken_addon_def lab_addon_def
  strict_manager_def lenient_manager_def Let_def

section \<open>The generator map of a two-stage lifecycle\<close>

text \<open>
  Claim C1. For the hooks \<open>[A, B]\<close>, the phases \<open>[pre_, (empty), post_]\<close> and the parents
  \<open>{B: A}\<close>, \<^verbatim>\<open>_default_doit_tasks\<close> builds six generators, in this order: those of
  \<open>pre_A\<close>, \<open>A\<close>, \<open>post_A\<close>, \<open>pre_B\<close>, \<open>B\<close>, \<open>post_B\<close>. The first is \<^verbatim>\<open>_gather\<close> itself, with no
  \<^verbatim>\<open>create_after\<close>; the generator of \<open>pre_B\<close> is created after \<open>post_A\<close>, and each of the
  others after the key just before it. A generator is registered as \<open>task_\<close> followed by
  the task prefix and its key, and \<^verbatim>\<open>create_after\<close> names a predecessor by the task
  prefix followed by its key. This holds for every configuration of the manager.
\<close>

theorem default_doit_tasks_A_B:
  "(let tasks = default_doit_tasks m [''A'', ''B''] [''pre_'', [], ''post_''] [(''B'', ''A'')]
    in tasks =
         [(''task_'' @ task_prefix m @ ''pre_A'', Gather ''pre_A''),
          (''task_'' @ task_prefix m @ ''A'', DelayedGather (task_prefix m @ ''pre_A'') ''A''),
          (''task_'' @ task_prefix m @ ''post_A'', DelayedGather (task_prefix m @ ''A'') ''post_A''),
          (''task_'' @ task_prefix m @ ''pre_B'', DelayedGather (task_prefix m @ ''post_A'') ''pre_B''),
          (''task_'' @ task_prefix m @ ''B'', DelayedGather (task_prefix m @ ''pre_B'') ''B''),
          (''task_'' @ task_prefix m @ ''post_B'', DelayedGather (task_prefix m @ ''B'') ''post_B'')]
       \<and> map (generator_attr \<circ> snd) tasks =
           [''pre_A'', ''A'', ''post_A'', ''pre_B'', ''B'', ''post_B'']
       \<and> map (create_after \<circ> snd) tasks =
           [None,
            Some (task_prefix m @ ''pre_A''),
            Some (task_prefix m @ ''A''),
            Some (task_prefix m @ ''post_A''),
            Some (task_prefix m @ ''pre_B''),
            Some (task_prefix m @ ''B'')])"
  by (simp add: default_doit_tasks_def gather_tasks_def Let_def)
section \<open>Building the registry\<close>

text \<open>
  Claim C5. When the entry point of an addon raises (the addon is not disabled), building
  the registry goes on, whatever the value of \<^verbatim>\<open>strict\<close>: \<^verbatim>\<open>create_addons\<close> returns
  the registry it would return if that entry point were not in the table, a warning
  \<open>[lite] [addon] [name] FAIL\<close> with the exception is logged, the name is not a key of the
  registry (the table being a dictionary, the name occurs once), every later entry point
  that is not disabled is still called, all that is logged or called without the failing
  entry point still is, and setting \<^verbatim>\<open>strict\<close> to any value changes nothing.
\<close>

theorem create_addons_isolates_failure:
  assumes "name \<notin> set (disable_addons m)"
    and "addon_implementation (is_sys_prefix_ignored m name) = Inl err"
  shows "fst (create_addons m (before @ (name, addon_implementation) # after)) =
           fst (create_addons m (before @ after))
       \<and> LogWarning (''[lite] [addon] ['' @ name @ ''] FAIL'') err
           \<in> set (snd (create_addons m (before @ (name, addon_implementation) # after)))
       \<and> (name \<notin> fst ` set (before @ after) \<longrightarrow>
            name \<notin> fst ` set (fst (create_addons m (before @ (name, addon_implementation) # after))))
       \<and> (\<forall>n \<in> fst ` set after. n \<notin> set (disable_addons m) \<longrightarrow>
            CallFactory n (is_sys_prefix_ignored m n)
              \<in> set (snd (create_addons m (before @ (name, addon_implementation) # after))))
       \<and> set (snd (create_addons m (before @ after)))
           \<subseteq> set (snd (create_addons m (before @ (name, addon_implementation) # after)))
       \<and> create_addons (m\<lparr>strict := b\<rparr>) (before @ (name, addon_implementation) # after) =
           create_addons m (before @ (name, addon_implementation) # after)"
proof -
  let ?all = "before @ (name, addon_implementation) # after"
  let ?acc = "fst (create_addons_loop m before [])"
  have step_fst: "fst (create_addons_loop m ((name, addon_implementation) # after) ?acc) =
      fst (create_addons_loop m after ?acc)"
    unfolding create_addons_loop_fst using assms by simp
  have step_snd: "snd (create_addons_loop m ((name, addon_implementation) # after) ?acc) =
      (if is_sys_prefix_ignored m name
       then [LogDebug (''[lite] [addon] ['' @ name @ ''] ... ignore sys prefix'')] else [])
      @ CallFactory name (is_sys_prefix_ignored m name)
      # LogWarning (''[lite] [addon] ['' @ name @ ''] FAIL'') err
      # snd (create_addons_loop m after ?acc)"
    unfolding create_addons_loop_snd using assms by simp
  have registry: "fst (create_addons m ?all) = fst (create_addons m (before @ after))"
    by (simp add: create_addons_def create_addons_loop_append_fst step_fst
          del: create_addons_loop.simps)
  have warning: "LogWarning (''[lite] [addon] ['' @ name @ ''] FAIL'') err
      \<in> set (snd (create_addons m ?all))"
    by (simp add: create_addons_def create_addons_loop_append_snd step_snd
          del: create_addons_loop.simps)
  have omitted: "name \<notin> fst ` set (fst (create_addons m ?all))"
    if "name \<notin> fst ` set (before @ after)"
    using create_addons_loop_keys [of m "before @ after" "[]"] that
    unfolding registry by (auto simp: create_addons_def)
  have calls: "CallFactory n (is_sys_prefix_ignored m n) \<in> set (snd (create_addons m ?all))"
    if "n \<in> fst ` set after" "n \<notin> set (disable_addons m)" for n
    using that by (auto simp: create_addons_def create_addons_loop_calls)
  have rest: "set (snd (create_addons m (before @ after))) \<subseteq> set (snd (create_addons m ?all))"
    by (auto simp: create_addons_def create_addons_loop_append_snd step_snd
          simp del: create_addons_loop.simps)
  have strict: "create_addons (m\<lparr>strict := b\<rparr>) ?all = create_addons m ?all"
    by (simp add: create_addons_def create_addons_loop_strict)
  show ?thesis
    using registry warning omitted calls rest strict by blast
qed

theorem create_addons_isolates_failure_witness:
  "''missing'' \<notin> set (disable_addons strict_manager)
   \<and> fst (create_addons strict_manager entry_points) =
       fst (create_addons strict_manager
              [(''contents'', \<lambda>flag. Inr contents_addon),
               (''off'', \<lambda>flag. Inr broken_addon),
               (''lab'', \<lambda>flag. Inr lab_addon)])
   \<and> LogWarning ''[lite] [addon] [missing] FAIL'' (AddonError ''cannot import'')
       \<in> set (snd (create_addons strict_manager entry_points))
   \<and> ''missing'' \<notin> fst ` set (fst (create_addons strict_manager entry_points))
   \<and> CallFactory ''lab'' True \<in> set (snd (create_addons strict_manager entry_points))
   \<and> create_addons lenient_manager entry_points = create_addons strict_manager entry_points"
proof -
  have enabled: "''missing'' \<notin> set (disable_addons strict_manager)"
    by (simp add: strict_manager_def)
  have fails: "(\<lambda>flag. Inl (AddonError ''cannot import'') :: exn + addon)
                 (is_sys_prefix_ignored strict_manager ''missing'') =
               Inl (AddonError ''cannot import'')"
    by simp
  have lenient: "strict_manager\<lparr>strict := False\<rparr> = lenient_manager"
    by (simp add: strict_manager_def lenient_manager_def)
  have flag: "is_sys_prefix_ignored strict_manager ''lab''"
    by (simp add: is_sys_prefix_ignored_def strict_manager_def)
  note fact = create_addons_isolates_failure
      [OF enabled fails,
       of "[(''contents'', \<lambda>flag. Inr contents_addon), (''off'', \<lambda>flag. Inr broken_addon)]"
          "[(''lab'', \<lambda>flag. Inr lab_addon)]" False,
       unfolded append.simps lenient, folded entry_points_def]
  have lab: "''lab'' \<notin> set (disable_addons strict_manager)"
    by (simp add: strict_manager_def)
  have calls: "CallFactory ''lab'' True \<in> set (snd (create_addons strict_manager entry_points))"
    using fact [THEN conjunct2, THEN conjunct2, THEN conjunct2, THEN conjunct1] flag lab
    by simp
  have omitted: "''missing'' \<notin> fst ` set (fst (create_addons strict_manager entry_points))"
    using fact [THEN conjunct2, THEN conjunct2, THEN conjunct1] by simp
  show ?thesis
    using enabled fact calls omitted by blast
qed

text \<open>
  Claim C6. An addon whose name is in \<^verbatim>\<open>disable_addons\<close> is never instantiated (its
  entry point is not called, with or without the flag), is not a key of the registry,
  and none of its task methods is called by the generator of any attribute, from any
  store: the registry is the one built from the table without that entry point.
\<close>

theorem disabled_addon_never_built:
  assumes "name \<in> set (disable_addons m)"
  shows "(\<forall>flag. CallFactory name flag \<notin> set (snd (create_addons m implementations)))
       \<and> name \<notin> fst ` set (fst (create_addons m implementations))
       \<and> (\<forall>attr h. CallOp name attr
             \<notin> set (events (gather m (fst (create_addons m implementations)) attr h)))
       \<and> fst (create_addons m implementations) =
           fst (create_addons m [x \<leftarrow> implementations. fst x \<noteq> name])"
proof -
  have calls: "CallFactory name flag \<notin> set (snd (create_addons m implementations))" for flag
    using assms by (simp add: create_addons_def create_addons_loop_calls)
  have registry: "name \<notin> fst ` set (fst (create_addons m implementations))"
    using create_addons_loop_keys [of m implementations "[]"] assms
    by (auto simp: create_addons_def)
  have polls: "CallOp name attr
      \<notin> set (events (gather m (fst (create_addons m implementations)) attr h))" for attr h
    using registry gather_loop_events [of name attr m attr "fst (create_addons m implementations)" h]
    by (force simp: gather_def)
  have same: "fst (create_addons m implementations) =
      fst (create_addons m [x \<leftarrow> implementations. fst x \<noteq> name])"
    using assms by (simp add: create_addons_def create_addons_loop_disabled)
  show ?thesis using calls registry polls same by blast
qed

theorem disabled_addon_never_built_witness:
  "''off'' \<in> set (disable_addons strict_manager)
   \<and> CallFactory ''off'' True \<notin> set (snd (create_addons strict_manager entry_points))
   \<and> CallFactory ''off'' False \<notin> set (snd (create_addons strict_manager entry_points))
   \<and> ''off'' \<notin> fst ` set (fst (create_addons strict_manager entry_points))
   \<and> CallOp ''off'' ''build''
       \<notin> set (events (gather strict_manager (fst (create_addons strict_manager entry_points))
                         ''build'' site_store))"
proof -
  have disabled: "''off'' \<in> set (disable_addons strict_manager)"
    by (simp add: strict_manager_def)
  show ?thesis
    using disabled disabled_addon_never_built [OF disabled, of entry_points]
    by blast
qed

text \<open>
  Claim C8. While the registry is built, an entry point that is constructed (one that is
  not in \<^verbatim>\<open>disable_addons\<close>) is called with \<^verbatim>\<open>ignore_sys_prefix=True\<close> if and only if
  \<^verbatim>\<open>ignore_sys_prefix\<close> is a tuple of names that contains its name, or is the boolean
  \<^verbatim>\<open>True\<close>; otherwise it is called without the flag. With any other value of
  \<^verbatim>\<open>ignore_sys_prefix\<close> no entry point is called with the flag, and the flag of every call
  that is made says whether \<^verbatim>\<open>ignore_sys_prefix\<close> selects the name called.
\<close>

theorem create_addons_ignore_sys_prefix:
  assumes "name \<in> fst ` set implementations"
    and "name \<notin> set (disable_addons m)"
  shows "(CallFactory name True \<in> set (snd (create_addons m implementations)) \<longleftrightarrow>
            (\<exists>names. ignore_sys_prefix m = IgnoreTuple names \<and> name \<in> set names)
            \<or> ignore_sys_prefix m = IgnoreBool True)
       \<and> (CallFactory name False \<in> set (snd (create_addons m implementations)) \<longleftrightarrow>
            \<not> ((\<exists>names. ignore_sys_prefix m = IgnoreTuple names \<and> name \<in> set names)
               \<or> ignore_sys_prefix m = IgnoreBool True))
       \<and> (\<forall>n. CallFactory n True \<in> set (snd (create_addons m implementations)) \<longrightarrow>
            (\<exists>names. ignore_sys_prefix m = IgnoreTuple names \<and> n \<in> set names)
            \<or> ignore_sys_prefix m = IgnoreBool True)
       \<and> (\<forall>n flag. CallFactory n flag \<in> set (snd (create_addons m implementations)) \<longrightarrow>
            (flag \<longleftrightarrow>
              (\<exists>names. ignore_sys_prefix m = IgnoreTuple names \<and> n \<in> set names)
              \<or> ignore_sys_prefix m = IgnoreBool True))"
  using assms
  unfolding create_addons_def create_addons_loop_calls is_sys_prefix_ignored_iff [symmetric]
  by auto

theorem create_addons_ignore_sys_prefix_witness:
  "''lab'' \<in> fst ` set entry_points
   \<and> ''lab'' \<notin> set (disable_addons strict_manager)
   \<and> ignore_sys_prefix strict_manager = IgnoreTuple [''lab'']
   \<and> CallFactory ''lab'' True \<in> set (snd (create_addons strict_manager entry_points))
   \<and> CallFactory ''lab'' False \<notin> set (snd (create_addons strict_manager entry_points))
   \<and> ''contents'' \<in> fst ` set entry_points
   \<and> ''contents'' \<notin> set (disable_addons strict_manager)
   \<and> CallFactory ''contents'' True \<notin> set (snd (create_addons strict_manager entry_points))
   \<and> CallFactory ''contents'' False \<in> set (snd (create_addons strict_manager entry_points))
   \<and> ''contents'' \<notin> set (disable_addons blanket_manager)
   \<and> ignore_sys_prefix blanket_manager = IgnoreBool True
   \<and> CallFactory ''contents'' True \<in> set (snd (create_addons blanket_manager entry_points))
   \<and> CallFactory ''contents'' False
        \<notin> set (snd (create_addons blanket_manager entry_points))"
proof -
  have lab: "''lab'' \<in> fst ` set entry_points"
    and contents: "''contents'' \<in> fst ` set entry_points"
    by (simp_all add: entry_points_def)
  have enabled: "''lab'' \<notin> set (disable_addons strict_manager)"
    "''contents'' \<notin> set (disable_addons strict_manager)"
    "''contents'' \<notin> set (disable_addons blanket_manager)"
    by (simp_all add: strict_manager_def blanket_manager_def)
  have sel: "ignore_sys_prefix strict_manager = IgnoreTuple [''lab'']"
    "ignore_sys_prefix blanket_manager = IgnoreBool True"
    by (simp_all add: strict_manager_def blanket_manager_def)
  note named = create_addons_ignore_sys_prefix [OF lab enabled(1)]
  note other = create_addons_ignore_sys_prefix [OF contents enabled(2)]
  note blanket = create_addons_ignore_sys_prefix [OF contents enabled(3)]
  have a: "CallFactory ''lab'' True \<in> set (snd (create_addons strict_manager entry_points))"
    using named [THEN conjunct1] sel by simp
  have b: "CallFactory ''lab'' False \<notin> set (snd (create_addons strict_manager entry_points))"
    using named [THEN conjunct2, THEN conjunct1] sel by simp
  have c: "CallFactory ''contents'' True
      \<notin> set (snd (create_addons strict_manager entry_points))"
    using other [THEN conjunct1] sel by simp
  have d: "CallFactory ''contents'' False
      \<in> set (snd (create_addons strict_manager entry_points))"
    using other [THEN conjunct2, THEN conjunct1] sel by simp
  have e: "CallFactory ''contents'' True
      \<in> set (snd (create_addons blanket_manager entry_points))"
    using blanket [THEN conjunct1] sel by simp
  have f: "CallFactory ''contents'' False
      \<notin> set (snd (create_addons blanket_manager entry_points))"
    using blanket [THEN conjunct2, THEN conjunct1] sel by simp
  show ?thesis
    by (intro conjI) (fact lab contents enabled sel a b c d e f)+
qed

section \<open>The generator and failing addons\<close>

text \<open>
  Claim C3. The manager is strict, the generator of \<open>attr\<close> has reached the addon \<open>name\<close>
  (no addon before it has left the \<^verbatim>\<open>try\<close> block by an exception), the addon
  implements \<open>attr\<close>, and polling its task method leaves the \<^verbatim>\<open>try\<close> block with the
  exception \<open>error\<close>. Then the generator ends by raising \<open>error\<close>; it has yielded what it
  yielded for the addons before and for this addon before the exception, and nothing for
  any addon after it, which might as well not be registered: none of them is called.
  The last thing it does is to log the error line
  \<open>[lite] [attr] [name] [ERR] \<close> followed by the text of the exception: that line names the
  attribute and the addon. The exception raised is the addon's own, unchanged.
\<close>

theorem gather_strict_failure:
  fixes m :: manager and before after :: "(string \<times> addon) list" and attr name :: string
    and h :: heap and addon :: addon
  defines "r0 \<equiv> gather m before attr h"
  defines "r1 \<equiv> gather_addon m name (fst (getattr_call addon attr))
                  (snd (getattr_call addon attr)) (store_after r0)"
  assumes "strict m"
    and "raised r0 = None"
    and "attr \<in> set (addon_all addon)"
    and "raised r1 = Some error"
  shows "gather m (before @ (name, addon) # after) attr h =
           (yielded r0 @ yielded r1,
            Some error,
            store_after r1,
            events r0 @ CallOp name attr # events r1
              @ [LogError (''[lite] ['' @ attr @ ''] ['' @ name @ ''] [ERR] '' @ str_exn error)])
       \<and> gather m (before @ (name, addon) # after) attr h =
           gather m (before @ [(name, addon)]) attr h"
  using gather_stop [of m before attr h addon name error after]
    gather_stop [of m before attr h addon name error "[]"] assms(3-6)
  by (simp add: r0_def r1_def)

theorem gather_strict_failure_witness:
  "strict strict_manager
   \<and> raised (gather strict_manager [(''contents'', contents_addon)] ''build'' site_store) = None
   \<and> ''build'' \<in> set (addon_all broken_addon)
   \<and> getattr_call broken_addon ''build'' = ([3], Some (AddonError ''boom''))
   \<and> gather strict_manager
         [(''contents'', contents_addon), (''broken'', broken_addon), (''lab'', lab_addon)]
         ''build'' site_store =
       ([4, 5, 6],
        Some (AddonError ''boom''),
        site_store
          @ [[(''name'', Str ''x_contents:copy''), (''actions'', Obj 0 ''[copy]'')],
             [(''name'', Str ''x_contents:index''), (''targets'', Obj 1 ''[index.html]'')],
             [(''actions'', Obj 2 ''[link]''), (''name'', Str ''x_broken:copy'')]],
        [CallOp ''contents'' ''build'', Print ''x_contents:copy'', Print ''x_contents:index'',
         CallOp ''broken'' ''build'', Print ''x_broken:copy'',
         LogError ''[lite] [build] [broken] [ERR] boom''])"
proof -
  have strict: "strict strict_manager" by (simp add: strict_manager_def)
  have before: "raised (gather strict_manager [(''contents'', contents_addon)] ''build'' site_store)
      = None"
    by (simp add: site_defs)
  have cap: "''build'' \<in> set (addon_all broken_addon)" by (simp add: broken_addon_def)
  have call: "getattr_call broken_addon ''build'' = ([3], Some (AddonError ''boom''))"
    by (simp add: broken_addon_def)
  have fails: "raised (gather_addon strict_manager ''broken''
        (fst (getattr_call broken_addon ''build'')) (snd (getattr_call broken_addon ''build''))
        (store_after (gather strict_manager [(''contents'', contents_addon)] ''build'' site_store)))
      = Some (AddonError ''boom'')"
    by (simp add: site_defs)
  note fact = gather_strict_failure [OF strict before cap fails, of "[(''lab'', lab_addon)]",
      THEN conjunct1]
  have "gather strict_manager
         [(''contents'', contents_addon), (''broken'', broken_addon), (''lab'', lab_addon)]
         ''build'' site_store =
       ([4, 5, 6],
        Some (AddonError ''boom''),
        site_store
          @ [[(''name'', Str ''x_contents:copy''), (''actions'', Obj 0 ''[copy]'')],
             [(''name'', Str ''x_contents:index''), (''targets'', Obj 1 ''[index.html]'')],
             [(''actions'', Obj 2 ''[link]''), (''name'', Str ''x_broken:copy'')]],
        [CallOp ''contents'' ''build'', Print ''x_contents:copy'', Print ''x_contents:index'',
         CallOp ''broken'' ''build'', Print ''x_broken:copy'',
         LogError ''[lite] [build] [broken] [ERR] boom''])"
    using fact by (simp add: site_defs)
  then show ?thesis
    using strict before cap call by blast
qed

text \<open>
  Claim C4. The manager is not strict, the addon \<open>name\<close> implements \<open>attr\<close>, and polling
  its task method leaves the \<^verbatim>\<open>try\<close> block with the exception \<open>error\<close>. Then the error
  line \<open>[lite] [attr] [name] [ERR] ...\<close> is logged, no exception leaves the generator, and
  the generator goes on with the addons after it: it yields what the generator of those
  addons yields from the store reached, after what it had yielded before.
\<close>

theorem gather_lenient_failure:
  fixes m :: manager and before after :: "(string \<times> addon) list" and attr name :: string
    and h :: heap and addon :: addon
  defines "r0 \<equiv> gather m before attr h"
  defines "r1 \<equiv> gather_addon m name (fst (getattr_call addon attr))
                  (snd (getattr_call addon attr)) (store_after r0)"
  defines "r2 \<equiv> gather m after attr (store_after r1)"
  assumes "\<not> strict m"
    and "attr \<in> set (addon_all addon)"
    and "raised r1 = Some error"
  shows "gather m (before @ (name, addon) # after) attr h =
           (yielded r0 @ yielded r1 @ yielded r2,
            None,
            store_after r2,
            events r0 @ CallOp name attr # events r1
              @ [LogError (''[lite] ['' @ attr @ ''] ['' @ name @ ''] [ERR] '' @ str_exn error)]
              @ events r2)"
  using gather_go [of m before attr h addon name after] assms(4-6)
  by (simp add: r0_def r1_def r2_def gather_lenient log_error_def)

theorem gather_lenient_failure_witness:
  "\<not> strict lenient_manager
   \<and> ''build'' \<in> set (addon_all broken_addon)
   \<and> getattr_call broken_addon ''build'' = ([3], Some (AddonError ''boom''))
   \<and> getattr_call lab_addon ''build'' = ([3, 2, 1], None)
   \<and> gather lenient_manager
         [(''contents'', contents_addon), (''broken'', broken_addon), (''lab'', lab_addon)]
         ''build'' site_store =
       ([4, 5, 6, 7],
        None,
        site_store
          @ [[(''name'', Str ''x_contents:copy''), (''actions'', Obj 0 ''[copy]'')],
             [(''name'', Str ''x_contents:index''), (''targets'', Obj 1 ''[index.html]'')],
             [(''actions'', Obj 2 ''[link]''), (''name'', Str ''x_broken:copy'')],
             [(''actions'', Obj 2 ''[link]''), (''name'', Str ''x_lab:copy'')],
             [(''doc'', Str ''no name here'')]],
        [CallOp ''contents'' ''build'', Print ''x_contents:copy'', Print ''x_contents:index'',
         CallOp ''broken'' ''build'', Print ''x_broken:copy'',
         LogError ''[lite] [build] [broken] [ERR] boom'',
         CallOp ''lab'' ''build'', Print ''x_lab:copy'',
         LogError (''[lite] [build] [lab] [ERR] '' @ [CHR 0x27] @ ''name'' @ [CHR 0x27])])"
proof -
  have lenient: "\<not> strict lenient_manager" by (simp add: lenient_manager_def)
  have cap: "''build'' \<in> set (addon_all broken_addon)" by (simp add: broken_addon_def)
  have call: "getattr_call broken_addon ''build'' = ([3], Some (AddonError ''boom''))"
    by (simp add: broken_addon_def)
  have next_call: "getattr_call lab_addon ''build'' = ([3, 2, 1], None)"
    by (simp add: lab_addon_def)
  have fails: "raised (gather_addon lenient_manager ''broken''
        (fst (getattr_call broken_addon ''build'')) (snd (getattr_call broken_addon ''build''))
        (store_after (gather lenient_manager [(''contents'', contents_addon)] ''build'' site_store)))
      = Some (AddonError ''boom'')"
    by (simp add: site_defs)
  note fact = gather_lenient_failure [OF lenient cap fails, of "[(''lab'', lab_addon)]"]
  have "gather lenient_manager
         [(''contents'', contents_addon), (''broken'', broken_addon), (''lab'', lab_addon)]
         ''build'' site_store =
       ([4, 5, 6, 7],
        None,
        site_store
          @ [[(''name'', Str ''x_contents:copy''), (''actions'', Obj 0 ''[copy]'')],
             [(''name'', Str ''x_contents:index''), (''targets'', Obj 1 ''[index.html]'')],
             [(''actions'', Obj 2 ''[link]''), (''name'', Str ''x_broken:copy'')],
             [(''actions'', Obj 2 ''[link]''), (''name'', Str ''x_lab:copy'')],
             [(''doc'', Str ''no name here'')]],
        [CallOp ''contents'' ''build'', Print ''x_contents:copy'', Print ''x_contents:index'',
         CallOp ''broken'' ''build'', Print ''x_broken:copy'',
         LogError ''[lite] [build] [broken] [ERR] boom'',
         CallOp ''lab'' ''build'', Print ''x_lab:copy'',
         LogError (''[lite] [build] [lab] [ERR] '' @ [CHR 0x27] @ ''name'' @ [CHR 0x27])])"
    using fact by (simp add: site_defs)
  then show ?thesis
    using lenient cap call next_call by blast
qed

text \<open>
  Claim C10. The manager is not strict and the sequence of the addon \<open>name\<close> for \<open>attr\<close>
  fails partway: after the descriptors \<open>done\<close>, which have names, either the sequence
  raises \<open>error\<close>, or its next descriptor has no name and \<^verbatim>\<open>task["name"]\<close> raises
  \<^verbatim>\<open>KeyError\<close>, with the descriptors after it still to come. Then the generator has
  yielded one new dictionary for each descriptor of \<open>done\<close>, in order (the descriptor
  with the name rewritten), these stay yielded and in the store, nothing else is yielded
  for this addon, the error is logged, and the generator goes on with the addons after
  it without raising.
\<close>

theorem gather_lenient_partial:
  fixes m :: manager and before after :: "(string \<times> addon) list" and attr name :: string
    and h :: heap and addon :: addon
  defines "r0 \<equiv> gather m before attr h"
  defines "r1 \<equiv> gather_addon m name (fst (getattr_call addon attr))
                  (snd (getattr_call addon attr)) (store_after r0)"
  defines "r \<equiv> gather m (before @ (name, addon) # after) attr h"
  assumes "\<not> strict m"
    and "attr \<in> set (addon_all addon)"
    and "getattr_call addon attr = (done @ rest, ending)"
    and "\<forall>task \<in> set (done @ rest). task < length (store_after r0)"
    and "\<forall>task \<in> set done. map_of (store_after r0 ! task) ''name'' \<noteq> None"
    and "(rest = [] \<and> ending = Some error)
         \<or> (rest \<noteq> [] \<and> map_of (store_after r0 ! hd rest) ''name'' = None
             \<and> error = KeyError ''name'')"
  shows "yielded r1 = [length (store_after r0) ..< length (store_after r0) + length done]
       \<and> raised r1 = Some error
       \<and> yielded r = yielded r0 @ yielded r1 @ yielded (gather m after attr (store_after r1))
       \<and> raised r = None
       \<and> (\<forall>i < length done. \<exists>v.
             map_of (store_after r0 ! (done ! i)) ''name'' = Some v \<and>
             store_after r ! (length (store_after r0) + i) =
               dict_set (store_after r0 ! (done ! i)) ''name''
                 (Str (task_prefix m @ name @ '':'' @ py_format v)))
       \<and> LogError (''[lite] ['' @ attr @ ''] ['' @ name @ ''] [ERR] '' @ str_exn error)
           \<in> set (events r)"
proof -
  let ?h0 = "store_after r0"
  have tw: "takeWhile (has_name ?h0) (done @ rest) = done"
    using assms(8,9) by (intro takeWhile_done) (auto simp: has_name_def)
  have r1_eq: "r1 = gather_addon m name (done @ rest) ending ?h0"
    by (simp add: r1_def assms(6))
  note closed = gather_addon_closed [OF assms(7), of m name ending, folded r1_eq, unfolded tw]
  have y1: "yielded r1 = [length ?h0 ..< length ?h0 + length done]"
    by (simp add: closed)
  have e1: "raised r1 = Some error"
    using assms(9) by (auto simp: closed)
  have s1: "store_after r1 ! (length ?h0 + i) = patched m name (?h0 ! (done ! i))"
    if "i < length done" for i
    using that by (simp add: closed nth_append)
  have len1: "length ?h0 + length done \<le> length (store_after r1)"
    by (simp add: closed)
  have none0: "raised r0 = None"
    using assms(4) by (simp add: r0_def gather_lenient)
  have whole: "r = (yielded r0 @ yielded r1 @ yielded (gather m after attr (store_after r1)),
            raised (gather m after attr (store_after r1)),
            store_after (gather m after attr (store_after r1)),
            events r0 @ CallOp name attr # events r1 @ log_error attr name (raised r1)
              @ events (gather m after attr (store_after r1)))"
    unfolding r_def r1_def r0_def
    by (rule gather_go) (use none0 assms(4,5) in \<open>simp_all add: r0_def\<close>)
  obtain new where new: "store_after (gather m after attr (store_after r1)) = store_after r1 @ new"
    unfolding gather_def using gather_loop_store by blast
  have sr: "store_after r = store_after r1 @ new"
    by (simp add: whole new)
  have copies: "\<exists>v. map_of (?h0 ! (done ! i)) ''name'' = Some v \<and>
             store_after r ! (length ?h0 + i) =
               dict_set (?h0 ! (done ! i)) ''name''
                 (Str (task_prefix m @ name @ '':'' @ py_format v))"
    if i: "i < length done" for i
  proof -
    from assms(8) i obtain v where v: "map_of (?h0 ! (done ! i)) ''name'' = Some v"
      by (metis nth_mem not_None_eq)
    have "store_after r ! (length ?h0 + i) = store_after r1 ! (length ?h0 + i)"
      using len1 i by (simp add: sr nth_append)
    then show ?thesis
      using s1 [OF i] v by (simp add: patched_def patched_name_def)
  qed
  have none: "raised r = None"
    using assms(4) by (simp add: r_def gather_lenient)
  have logged: "LogError (''[lite] ['' @ attr @ ''] ['' @ name @ ''] [ERR] '' @ str_exn error)
           \<in> set (events r)"
    by (simp add: whole e1 log_error_def)
  show ?thesis
    using y1 e1 copies none logged by (simp add: whole)
qed

theorem gather_lenient_partial_witness:
  "\<not> strict lenient_manager
   \<and> ''build'' \<in> set (addon_all lab_addon)
   \<and> getattr_call lab_addon ''build'' = ([3] @ [2, 1], None)
   \<and> map_of (site_store ! 3) ''name'' = Some (Str ''copy'')
   \<and> map_of (site_store ! 2) ''name'' = None
   \<and> yielded (gather lenient_manager [(''lab'', lab_addon), (''contents'', contents_addon)]
                ''build'' site_store) = [4, 6, 7]
   \<and> raised (gather lenient_manager [(''lab'', lab_addon), (''contents'', contents_addon)]
                ''build'' site_store) = None
   \<and> store_after (gather lenient_manager [(''lab'', lab_addon), (''contents'', contents_addon)]
                ''build'' site_store) ! 4 =
       [(''actions'', Obj 2 ''[link]''), (''name'', Str ''x_lab:copy'')]
   \<and> LogError (''[lite] [build] [lab] [ERR] '' @ [CHR 0x27] @ ''name'' @ [CHR 0x27])
       \<in> set (events (gather lenient_manager
                        [(''lab'', lab_addon), (''contents'', contents_addon)]
                        ''build'' site_store))"
proof -
  let ?h0 = "store_after (gather lenient_manager [] ''build'' site_store)"
  have h0: "?h0 = site_store" by (simp add: gather_def)
  have lenient: "\<not> strict lenient_manager" by (simp add: lenient_manager_def)
  have cap: "''build'' \<in> set (addon_all lab_addon)" by (simp add: lab_addon_def)
  have call: "getattr_call lab_addon ''build'' = ([3] @ [2, 1], None)"
    by (simp add: lab_addon_def)
  have stored: "\<forall>task \<in> set ([3] @ [2, 1]). task < length ?h0"
    unfolding h0 by (simp add: site_store_def)
  have named: "\<forall>task \<in> set [3]. map_of (?h0 ! task) ''name'' \<noteq> None"
    unfolding h0 by (simp add: site_store_def)
  have fails: "([2, 1] = [] \<and> None = Some (KeyError ''name''))
      \<or> ([2, 1] \<noteq> [] \<and> map_of (?h0 ! hd [2, 1]) ''name'' = None
          \<and> KeyError ''name'' = KeyError ''name'')"
    unfolding h0 by (simp add: site_store_def)
  note fact = gather_lenient_partial [OF lenient cap call stored named fails,
      of "''lab''" "[(''contents'', contents_addon)]"]
  have run: "gather lenient_manager [(''lab'', lab_addon), (''contents'', contents_addon)]
                ''build'' site_store =
      ([4, 6, 7], None,
       site_store
         @ [[(''actions'', Obj 2 ''[link]''), (''name'', Str ''x_lab:copy'')],
            [(''doc'', Str ''no name here'')],
            [(''name'', Str ''x_contents:copy''), (''actions'', Obj 0 ''[copy]'')],
            [(''name'', Str ''x_contents:index''), (''targets'', Obj 1 ''[index.html]'')]],
       [CallOp ''lab'' ''build'', Print ''x_lab:copy'',
        LogError (''[lite] [build] [lab] [ERR] '' @ [CHR 0x27] @ ''name'' @ [CHR 0x27]),
        CallOp ''contents'' ''build'', Print ''x_contents:copy'', Print ''x_contents:index''])"
    by (simp add: site_defs)
  have ys: "yielded (gather lenient_manager [(''lab'', lab_addon), (''contents'', contents_addon)]
                ''build'' site_store) = [4, 6, 7]"
    unfolding run by simp
  have none: "raised (gather lenient_manager [(''lab'', lab_addon), (''contents'', contents_addon)]
                ''build'' site_store) = None"
    using fact by simp
  have copy: "store_after (gather lenient_manager [(''lab'', lab_addon), (''contents'', contents_addon)]
                ''build'' site_store) ! 4 =
       [(''actions'', Obj 2 ''[link]''), (''name'', Str ''x_lab:copy'')]"
    unfolding run by (simp add: site_store_def)
  have logged: "LogError (''[lite] [build] [lab] [ERR] '' @ [CHR 0x27] @ ''name'' @ [CHR 0x27])
       \<in> set (events (gather lenient_manager
                        [(''lab'', lab_addon), (''contents'', contents_addon)]
                        ''build'' site_store))"
    using fact by simp
  have src: "map_of (site_store ! 3) ''name'' = Some (Str ''copy'')"
    "map_of (site_store ! 2) ''name'' = None"
    by (simp_all add: site_store_def)
  show ?thesis
    using lenient cap call src ys none copy logged by blast
qed

section \<open>Which addons a generator polls\<close>

text \<open>
  Claim C7, as the code has it. The claim as stated fails when the manager is strict and
  an earlier addon fails: \<open>contents\<close> implements \<open>build\<close>, but the generator of \<open>build\<close> ends
  at the exception of \<open>broken\<close> and never calls the task method of \<open>contents\<close>.
\<close>

theorem gather_strict_skips_capable_addon:
  "''build'' \<in> set (addon_all contents_addon)
   \<and> \<not> (CallOp ''contents'' ''build''
            \<in> set (events (gather strict_manager
                              [(''broken'', broken_addon), (''contents'', contents_addon)]
                              ''build'' site_store))
          \<longleftrightarrow> ''build'' \<in> set (addon_all contents_addon))
   \<and> yielded (gather strict_manager
                [(''broken'', broken_addon), (''contents'', contents_addon)]
                ''build'' site_store) = [4]"
  by (simp add: site_defs)

text \<open>
  Claim C7, amended. Let the addon \<open>name\<close> be registered (once: the registry is a
  dictionary) and let the generator of \<open>attr\<close> reach it, which it always does when the
  manager is not strict, and does when it is strict unless an addon before has failed.
  Then the generator calls the task method of the addon if and only if \<open>attr\<close> is in its
  \<^verbatim>\<open>__all__\<close>. If it is not, the generator does exactly what it does without the addon in
  the registry. If it is, the descriptors of the addon are taken in: with the descriptors
  in the store, right after what it yielded for the addons before, the generator yields
  one new dictionary for each descriptor of the addon's sequence up to the first one
  without a name, in order, and that dictionary is the descriptor with its name replaced
  by the task prefix, the name of the addon, a colon and the formatted name.
\<close>

theorem gather_polls_capable_addons:
  fixes m :: manager and before after :: "(string \<times> addon) list" and attr name :: string
    and h :: heap and addon :: addon
  defines "r0 \<equiv> gather m before attr h"
  defines "r1 \<equiv> gather_addon m name (fst (getattr_call addon attr))
                  (snd (getattr_call addon attr)) (store_after r0)"
  defines "r \<equiv> gather m (before @ (name, addon) # after) attr h"
  defines "tasks \<equiv> fst (getattr_call addon attr)"
  assumes "name \<notin> fst ` set (before @ after)"
    and "strict m \<longrightarrow> raised r0 = None"
  shows "(CallOp name attr \<in> set (events r) \<longleftrightarrow> attr \<in> set (addon_all addon))
       \<and> (attr \<notin> set (addon_all addon) \<longrightarrow> r = gather m (before @ after) attr h)
       \<and> (attr \<in> set (addon_all addon) \<longrightarrow>
            (\<exists>later. yielded r = yielded r0 @ yielded r1 @ later))
       \<and> (attr \<in> set (addon_all addon)
            \<and> descriptors_in_store attr (before @ (name, addon) # after) h \<longrightarrow>
            (\<exists>later. yielded r =
               yielded r0
               @ [length (store_after r0) ..<
                  length (store_after r0) + length (takeWhile (has_name h) tasks)]
               @ later)
            \<and> (\<forall>i < length (takeWhile (has_name h) tasks). \<exists>v.
                 map_of (h ! (tasks ! i)) ''name'' = Some v \<and>
                 store_after r ! (length (store_after r0) + i) =
                   dict_set (h ! (tasks ! i)) ''name''
                     (Str (task_prefix m @ name @ '':'' @ py_format v))))"
proof -
  have none0: "raised r0 = None"
    using assms(6) gather_lenient [of m before attr h] by (auto simp: r0_def)
  have polls: "(CallOp name attr \<in> set (events r) \<longleftrightarrow> attr \<in> set (addon_all addon))
       \<and> (attr \<notin> set (addon_all addon) \<longrightarrow> r = gather m (before @ after) attr h)
       \<and> (attr \<in> set (addon_all addon) \<longrightarrow>
            (\<exists>later. yielded r = yielded r0 @ yielded r1 @ later))"
  proof (cases "attr \<in> set (addon_all addon)")
    case False
    have skip: "r = gather m (before @ after) attr h"
      unfolding r_def using none0 False by (intro gather_skip) (simp_all add: r0_def)
    have "CallOp name attr \<notin> set (events r)"
      using gather_loop_events [of name attr m attr "before @ after" h] assms(5)
      unfolding skip gather_def by force
    then show ?thesis using False skip by simp
  next
    case True
    show ?thesis
    proof (cases "raised r1 \<noteq> None \<and> strict m")
      case stop: True
      then obtain error where error: "raised r1 = Some error" by auto
      have "r = (yielded r0 @ yielded r1, Some error, store_after r1,
            events r0 @ CallOp name attr # events r1
              @ [LogError (''[lite] ['' @ attr @ ''] ['' @ name @ ''] [ERR] '' @ str_exn error)])"
        unfolding r_def r1_def r0_def
        by (rule gather_stop) (use stop none0 True error in \<open>simp_all add: r0_def r1_def\<close>)
      then show ?thesis using True by simp
    next
      case go: False
      have "r = (yielded r0 @ yielded r1 @ yielded (gather m after attr (store_after r1)),
            raised (gather m after attr (store_after r1)),
            store_after (gather m after attr (store_after r1)),
            events r0 @ CallOp name attr # events r1 @ log_error attr name (raised r1)
              @ events (gather m after attr (store_after r1)))"
        unfolding r_def r1_def r0_def
        by (rule gather_go) (use go none0 True in \<open>auto simp: r0_def r1_def\<close>)
      then show ?thesis using True by simp
    qed
  qed
  have copies: "(\<exists>later. yielded r =
               yielded r0
               @ [length (store_after r0) ..<
                  length (store_after r0) + length (takeWhile (has_name h) tasks)]
               @ later)
            \<and> (\<forall>i < length (takeWhile (has_name h) tasks). \<exists>v.
                 map_of (h ! (tasks ! i)) ''name'' = Some v \<and>
                 store_after r ! (length (store_after r0) + i) =
                   dict_set (h ! (tasks ! i)) ''name''
                     (Str (task_prefix m @ name @ '':'' @ py_format v)))"
    if "attr \<in> set (addon_all addon)"
      and "descriptors_in_store attr (before @ (name, addon) # after) h"
    unfolding r_def r0_def tasks_def
    by (rule gather_polled_copies [OF that(2) _ that(1)]) (use none0 in \<open>simp add: r0_def\<close>)
  show ?thesis
  proof (intro conjI)
    show "CallOp name attr \<in> set (events r) \<longleftrightarrow> attr \<in> set (addon_all addon)"
      using polls by (rule conjunct1)
    show "attr \<notin> set (addon_all addon) \<longrightarrow> r = gather m (before @ after) attr h"
      using polls by (elim conjE)
    show "attr \<in> set (addon_all addon) \<longrightarrow>
            (\<exists>later. yielded r = yielded r0 @ yielded r1 @ later)"
      using polls by (elim conjE)
    show "attr \<in> set (addon_all addon)
            \<and> descriptors_in_store attr (before @ (name, addon) # after) h \<longrightarrow>
            (\<exists>later. yielded r =
               yielded r0
               @ [length (store_after r0) ..<
                  length (store_after r0) + length (takeWhile (has_name h) tasks)]
               @ later)
            \<and> (\<forall>i < length (takeWhile (has_name h) tasks). \<exists>v.
                 map_of (h ! (tasks ! i)) ''name'' = Some v \<and>
                 store_after r ! (length (store_after r0) + i) =
                   dict_set (h ! (tasks ! i)) ''name''
                     (Str (task_prefix m @ name @ '':'' @ py_format v)))"
      by (intro impI, elim conjE, rule copies)
  qed
qed

theorem gather_polls_capable_addons_witness:
  "''lab'' \<notin> fst ` set [(''contents'', contents_addon)]
   \<and> raised (gather strict_manager [(''contents'', contents_addon)] ''build'' site_store) = None
   \<and> ''build'' \<in> set (addon_all lab_addon)
   \<and> fst (getattr_call lab_addon ''build'') = [3, 2, 1]
   \<and> takeWhile (has_name site_store) [3, 2, 1] = [3]
   \<and> CallOp ''lab'' ''build''
       \<in> set (events (gather strict_manager
                         [(''contents'', contents_addon), (''lab'', lab_addon)]
                         ''build'' site_store))
   \<and> yielded (gather strict_manager [(''contents'', contents_addon), (''lab'', lab_addon)]
                ''build'' site_store) = [4, 5, 6]
   \<and> store_after (gather strict_manager [(''contents'', contents_addon), (''lab'', lab_addon)]
                ''build'' site_store) ! 6 =
       [(''actions'', Obj 2 ''[link]''), (''name'', Str ''x_lab:copy'')]
   \<and> ''post_build'' \<notin> set (addon_all lab_addon)
   \<and> CallOp ''lab'' ''post_build''
       \<notin> set (events (gather strict_manager
                         [(''contents'', contents_addon), (''lab'', lab_addon)]
                         ''post_build'' site_store))
   \<and> yielded (gather strict_manager [(''contents'', contents_addon), (''lab'', lab_addon)]
                ''post_build'' site_store) = [4]"
proof -
  have once: "''lab'' \<notin> fst ` set ([(''contents'', contents_addon)] @ [])" by simp
  have reached: "strict strict_manager \<longrightarrow>
      raised (gather strict_manager [(''contents'', contents_addon)] attr site_store) = None"
    if "attr = ''build'' \<or> attr = ''post_build''" for attr
    using that by (auto simp: site_defs)
  have cap: "''build'' \<in> set (addon_all lab_addon)"
    and nocap: "''post_build'' \<notin> set (addon_all lab_addon)"
    and seq: "fst (getattr_call lab_addon ''build'') = [3, 2, 1]"
    by (simp_all add: lab_addon_def)
  have ok: "takeWhile (has_name site_store) [3, 2, 1] = [3]"
    by (simp add: has_name_def site_store_def)
  have wf: "descriptors_in_store ''build''
      ([(''contents'', contents_addon)] @ (''lab'', lab_addon) # []) site_store"
    by (simp add: descriptors_in_store_def contents_addon_def lab_addon_def site_store_def)
  have before: "gather strict_manager [(''contents'', contents_addon)] ''build'' site_store =
      ([4, 5], None,
       site_store
         @ [[(''name'', Str ''x_contents:copy''), (''actions'', Obj 0 ''[copy]'')],
            [(''name'', Str ''x_contents:index''), (''targets'', Obj 1 ''[index.html]'')]],
       [CallOp ''contents'' ''build'', Print ''x_contents:copy'', Print ''x_contents:index''])"
    by (simp add: site_defs)
  note build = gather_polls_capable_addons [OF once reached, of "''build''" lab_addon]
  note post = gather_polls_capable_addons [OF once reached, of "''post_build''" lab_addon]
  have called: "CallOp ''lab'' ''build''
       \<in> set (events (gather strict_manager
                         [(''contents'', contents_addon), (''lab'', lab_addon)]
                         ''build'' site_store))"
    using build [THEN conjunct1] cap by simp
  have not_called: "CallOp ''lab'' ''post_build''
       \<notin> set (events (gather strict_manager
                         [(''contents'', contents_addon), (''lab'', lab_addon)]
                         ''post_build'' site_store))"
    using post [THEN conjunct1] nocap by simp
  have taken: "\<forall>i < length (takeWhile (has_name site_store) (fst (getattr_call lab_addon ''build''))).
      \<exists>v. map_of (site_store ! (fst (getattr_call lab_addon ''build'') ! i)) ''name'' = Some v \<and>
        store_after (gather strict_manager
            ([(''contents'', contents_addon)] @ (''lab'', lab_addon) # []) ''build'' site_store)
          ! (length (store_after
               (gather strict_manager [(''contents'', contents_addon)] ''build'' site_store)) + i) =
        dict_set (site_store ! (fst (getattr_call lab_addon ''build'') ! i)) ''name''
          (Str (task_prefix strict_manager @ ''lab'' @ '':'' @ py_format v))"
    using build [THEN conjunct2, THEN conjunct2, THEN conjunct2] cap wf by blast
  have copy: "store_after (gather strict_manager
        [(''contents'', contents_addon), (''lab'', lab_addon)] ''build'' site_store) ! 6 =
       [(''actions'', Obj 2 ''[link]''), (''name'', Str ''x_lab:copy'')]"
  proof -
    have len: "length (store_after
        (gather strict_manager [(''contents'', contents_addon)] ''build'' site_store)) = 6"
      unfolding before by (simp add: site_store_def)
    have cell: "site_store ! 3 = [(''actions'', Obj 2 ''[link]''), (''name'', Str ''copy'')]"
      by (simp add: site_store_def)
    have pre: "task_prefix strict_manager = ''x_''" by (simp add: strict_manager_def)
    have "\<exists>v. map_of (site_store ! 3) ''name'' = Some v \<and>
        store_after (gather strict_manager
            [(''contents'', contents_addon), (''lab'', lab_addon)] ''build'' site_store) ! 6 =
        dict_set (site_store ! 3) ''name''
          (Str (task_prefix strict_manager @ ''lab'' @ '':'' @ py_format v))"
      using taken [unfolded seq ok len append.simps, rule_format, of 0] by simp
    then show ?thesis unfolding cell pre by auto
  qed
  have ys: "yielded (gather strict_manager [(''contents'', contents_addon), (''lab'', lab_addon)]
                ''build'' site_store) = [4, 5, 6]"
    "yielded (gather strict_manager [(''contents'', contents_addon), (''lab'', lab_addon)]
                ''post_build'' site_store) = [4]"
    by (simp_all add: site_defs)
  have once': "''lab'' \<notin> fst ` set [(''contents'', contents_addon)]" by simp
  have none: "raised (gather strict_manager [(''contents'', contents_addon)] ''build''
      site_store) = None"
    unfolding before by simp
  show ?thesis
    by (intro conjI) (fact once' none cap seq ok called ys copy nocap not_called)+
qed

section \<open>Descriptors are copied\<close>

text \<open>
  Claim C9. Let every descriptor the registered addons yield for \<open>attr\<close> be in the store.
  The generator of \<open>attr\<close> changes no dictionary that was in the store: the store after is
  the store before with new dictionaries added. What it yields are new dictionaries, all
  different, none of them in the store before. Each is the copy of a descriptor \<open>task\<close>
  that an addon implementing \<open>attr\<close> yields: the entries of \<open>task\<close> with the name replaced
  by the task prefix, the name of the addon, a colon and the formatted name of \<open>task\<close>;
  every other key has in the copy the value it has in \<open>task\<close>, and \<open>task\<close> is as it was.
  Conversely, for every descriptor with a name that a registered addon implementing
  \<open>attr\<close> yields before its sequence fails, once the generator has reached the addon, such
  a copy is yielded.
\<close>

theorem gather_copies_descriptors:
  fixes m :: manager and addons :: "(string \<times> addon) list" and attr :: string and h :: heap
  defines "r \<equiv> gather m addons attr h"
  assumes "descriptors_in_store attr addons h"
  shows "length h \<le> length (store_after r)
       \<and> (\<forall>a < length h. store_after r ! a = h ! a)
       \<and> distinct (yielded r)
       \<and> (\<forall>p \<in> set (yielded r).
            length h \<le> p \<and> p < length (store_after r) \<and>
            (\<exists>(name, addon) \<in> set addons. attr \<in> set (addon_all addon) \<and>
               (\<exists>task \<in> set (fst (getattr_call addon attr)). \<exists>v.
                  task < length h
                  \<and> map_of (h ! task) ''name'' = Some v
                  \<and> store_after r ! task = h ! task
                  \<and> store_after r ! p =
                      dict_set (h ! task) ''name''
                        (Str (task_prefix m @ name @ '':'' @ py_format v))
                  \<and> map_of (store_after r ! p) ''name'' =
                      Some (Str (task_prefix m @ name @ '':'' @ py_format v))
                  \<and> (\<forall>k. k \<noteq> ''name'' \<longrightarrow>
                        map_of (store_after r ! p) k = map_of (h ! task) k))))
       \<and> (\<forall>before name addon after done rest i.
            addons = before @ (name, addon) # after
            \<and> raised (gather m before attr h) = None
            \<and> attr \<in> set (addon_all addon)
            \<and> fst (getattr_call addon attr) = done @ rest
            \<and> (\<forall>task \<in> set done. map_of (h ! task) ''name'' \<noteq> None)
            \<and> i < length done
            \<longrightarrow> (\<exists>p \<in> set (yielded r). \<exists>v.
                   map_of (h ! (done ! i)) ''name'' = Some v \<and>
                   store_after r ! p =
                     dict_set (h ! (done ! i)) ''name''
                       (Str (task_prefix m @ name @ '':'' @ py_format v))))"
proof -
  obtain new where new: "store_after r = h @ new"
    unfolding r_def gather_def using gather_loop_store by blast
  have grows: "length h \<le> length (store_after r)" by (simp add: new)
  have frame: "store_after r ! a = h ! a" if "a < length h" for a
    using that by (simp add: new nth_append)
  have "sorted_wrt (<) (yielded r)"
    unfolding r_def gather_def using gather_loop_fresh by blast
  then have fresh: "distinct (yielded r)"
    by (simp add: strict_sorted_iff)
  have copy: "length h \<le> p \<and> p < length (store_after r) \<and>
            (\<exists>(name, addon) \<in> set addons. attr \<in> set (addon_all addon) \<and>
               (\<exists>task \<in> set (fst (getattr_call addon attr)). \<exists>v.
                  task < length h
                  \<and> map_of (h ! task) ''name'' = Some v
                  \<and> store_after r ! task = h ! task
                  \<and> store_after r ! p =
                      dict_set (h ! task) ''name''
                        (Str (task_prefix m @ name @ '':'' @ py_format v))
                  \<and> map_of (store_after r ! p) ''name'' =
                      Some (Str (task_prefix m @ name @ '':'' @ py_format v))
                  \<and> (\<forall>k. k \<noteq> ''name'' \<longrightarrow>
                        map_of (store_after r ! p) k = map_of (h ! task) k)))"
    if p: "p \<in> set (yielded r)" for p
  proof -
    from gather_loop_yielded [OF assms(2), of p m] p
    obtain name addon task v where
      range: "length h \<le> p" "p < length (store_after r)"
      and src: "(name, addon) \<in> set addons" "attr \<in> set (addon_all addon)"
        "task \<in> set (fst (getattr_call addon attr))"
      and v: "map_of (h ! task) ''name'' = Some v"
      and st: "store_after r ! p =
          dict_set (h ! task) ''name'' (Str (task_prefix m @ name @ '':'' @ py_format v))"
      unfolding r_def gather_def by auto
    have task: "task < length h"
      using assms(2) src by (auto simp: descriptors_in_store_def)
    have "\<exists>task \<in> set (fst (getattr_call addon attr)). \<exists>v.
                  task < length h
                  \<and> map_of (h ! task) ''name'' = Some v
                  \<and> store_after r ! task = h ! task
                  \<and> store_after r ! p =
                      dict_set (h ! task) ''name''
                        (Str (task_prefix m @ name @ '':'' @ py_format v))
                  \<and> map_of (store_after r ! p) ''name'' =
                      Some (Str (task_prefix m @ name @ '':'' @ py_format v))
                  \<and> (\<forall>k. k \<noteq> ''name'' \<longrightarrow>
                        map_of (store_after r ! p) k = map_of (h ! task) k)"
      by (rule bexI [OF _ src(3)], rule exI [of _ v])
         (simp add: task v frame st map_of_dict_set)
    then show ?thesis
      using range src(1,2) by blast
  qed
  have every: "\<exists>p \<in> set (yielded r). \<exists>v.
                   map_of (h ! (first ! i)) ''name'' = Some v \<and>
                   store_after r ! p =
                     dict_set (h ! (first ! i)) ''name''
                       (Str (task_prefix m @ name @ '':'' @ py_format v))"
    if "addons = before @ (name, addon) # after"
      and "raised (gather m before attr h) = None"
      and "attr \<in> set (addon_all addon)"
      and "fst (getattr_call addon attr) = first @ rest"
      and "\<forall>task \<in> set first. map_of (h ! task) ''name'' \<noteq> None"
      and "i < length first"
    for before name addon after first rest i
    unfolding r_def that(1)
    by (rule gather_yields_copy [OF _ that(2-6)]) (use assms(2) that(1) in simp)
  show ?thesis
  proof (intro conjI)
    show "length h \<le> length (store_after r)" by (rule grows)
    show "\<forall>a < length h. store_after r ! a = h ! a" using frame by blast
    show "distinct (yielded r)" by (rule fresh)
    show "\<forall>p \<in> set (yielded r).
            length h \<le> p \<and> p < length (store_after r) \<and>
            (\<exists>(name, addon) \<in> set addons. attr \<in> set (addon_all addon) \<and>
               (\<exists>task \<in> set (fst (getattr_call addon attr)). \<exists>v.
                  task < length h
                  \<and> map_of (h ! task) ''name'' = Some v
                  \<and> store_after r ! task = h ! task
                  \<and> store_after r ! p =
                      dict_set (h ! task) ''name''
                        (Str (task_prefix m @ name @ '':'' @ py_format v))
                  \<and> map_of (store_after r ! p) ''name'' =
                      Some (Str (task_prefix m @ name @ '':'' @ py_format v))
                  \<and> (\<forall>k. k \<noteq> ''name'' \<longrightarrow>
                        map_of (store_after r ! p) k = map_of (h ! task) k)))"
      using copy by (intro ballI)
    show "\<forall>before name addon after first rest i.
            addons = before @ (name, addon) # after
            \<and> raised (gather m before attr h) = None
            \<and> attr \<in> set (addon_all addon)
            \<and> fst (getattr_call addon attr) = first @ rest
            \<and> (\<forall>task \<in> set first. map_of (h ! task) ''name'' \<noteq> None)
            \<and> i < length first
            \<longrightarrow> (\<exists>p \<in> set (yielded r). \<exists>v.
                   map_of (h ! (first ! i)) ''name'' = Some v \<and>
                   store_after r ! p =
                     dict_set (h ! (first ! i)) ''name''
                       (Str (task_prefix m @ name @ '':'' @ py_format v)))"
      by (intro allI impI, elim conjE, rule every)
  qed
qed

theorem gather_copies_descriptors_witness:
  "descriptors_in_store ''build'' [(''contents'', contents_addon)] site_store
   \<and> yielded (gather strict_manager [(''contents'', contents_addon)] ''build'' site_store) = [4, 5]
   \<and> distinct (yielded (gather strict_manager [(''contents'', contents_addon)] ''build'' site_store))
   \<and> length site_store
       \<le> length (store_after
                   (gather strict_manager [(''contents'', contents_addon)] ''build'' site_store))
   \<and> store_after (gather strict_manager [(''contents'', contents_addon)] ''build'' site_store) ! 0
       = [(''name'', Str ''copy''), (''actions'', Obj 0 ''[copy]'')]
   \<and> store_after (gather strict_manager [(''contents'', contents_addon)] ''build'' site_store) ! 4
       = [(''name'', Str ''x_contents:copy''), (''actions'', Obj 0 ''[copy]'')]"
proof -
  have wf: "descriptors_in_store ''build'' [(''contents'', contents_addon)] site_store"
    by (simp add: descriptors_in_store_def contents_addon_def site_store_def)
  note fact = gather_copies_descriptors [OF wf, of strict_manager]
  have grows: "length site_store \<le> length (store_after
      (gather strict_manager [(''contents'', contents_addon)] ''build'' site_store))"
    by (rule fact [THEN conjunct1])
  have fresh: "distinct (yielded
      (gather strict_manager [(''contents'', contents_addon)] ''build'' site_store))"
    by (rule fact [THEN conjunct2, THEN conjunct2, THEN conjunct1])
  have run: "gather strict_manager [(''contents'', contents_addon)] ''build'' site_store =
      ([4, 5], None,
       site_store
         @ [[(''name'', Str ''x_contents:copy''), (''actions'', Obj 0 ''[copy]'')],
            [(''name'', Str ''x_contents:index''), (''targets'', Obj 1 ''[index.html]'')]],
       [CallOp ''contents'' ''build'', Print ''x_contents:copy'', Print ''x_contents:index''])"
    by (simp add: site_defs)
  have cells: "store_after
        (gather strict_manager [(''contents'', contents_addon)] ''build'' site_store) ! 0
       = [(''name'', Str ''copy''), (''actions'', Obj 0 ''[copy]'')]"
    "store_after (gather strict_manager [(''contents'', contents_addon)] ''build'' site_store) ! 4
       = [(''name'', Str ''x_contents:copy''), (''actions'', Obj 0 ''[copy]'')]"
    unfolding run by (simp_all add: site_store_def)
  have ys: "yielded (gather strict_manager [(''contents'', contents_addon)] ''build'' site_store)
      = [4, 5]"
    unfolding run by simp
  show ?thesis
    using wf fresh grows cells ys by blast
qed

section \<open>The names of the tasks\<close>

text \<open>
  Claim C2, as the code has it. Every name is rewritten as the claim says, but the names
  are not pairwise distinct over a run: the addon \<open>contents\<close> yields a task named \<open>copy\<close>
  for \<open>build\<close> and another task named \<open>copy\<close> for \<open>post_build\<close>, and both are yielded as
  \<open>x_contents:copy\<close>
  (the generator of \<open>post_build\<close> runs here from the store the generator of \<open>build\<close> left).
  The addons \<open>contents\<close> and \<open>lab\<close>, which both name a task \<open>copy\<close>, do not collide.
\<close>

theorem gather_names_repeat_across_attributes:
  "yielded_names (gather lenient_manager [(''contents'', contents_addon), (''lab'', lab_addon)]
                    ''build'' site_store) =
     [Some (Str ''x_contents:copy''), Some (Str ''x_contents:index''), Some (Str ''x_lab:copy'')]
   \<and> yielded_names (gather lenient_manager [(''contents'', contents_addon), (''lab'', lab_addon)]
                    ''post_build''
                    (store_after (gather lenient_manager
                       [(''contents'', contents_addon), (''lab'', lab_addon)]
                       ''build'' site_store))) =
     [Some (Str ''x_contents:copy'')]
   \<and> \<not> distinct
         (yielded_names (gather lenient_manager [(''contents'', contents_addon), (''lab'', lab_addon)]
                    ''build'' site_store)
          @ yielded_names (gather lenient_manager [(''contents'', contents_addon), (''lab'', lab_addon)]
                    ''post_build''
                    (store_after (gather lenient_manager
                       [(''contents'', contents_addon), (''lab'', lab_addon)]
                       ''build'' site_store))))"
proof -
  have build: "gather lenient_manager [(''contents'', contents_addon), (''lab'', lab_addon)]
                    ''build'' site_store =
      ([4, 5, 6], None,
       site_store
         @ [[(''name'', Str ''x_contents:copy''), (''actions'', Obj 0 ''[copy]'')],
            [(''name'', Str ''x_contents:index''), (''targets'', Obj 1 ''[index.html]'')],
            [(''actions'', Obj 2 ''[link]''), (''name'', Str ''x_lab:copy'')],
            [(''doc'', Str ''no name here'')]],
       [CallOp ''contents'' ''build'', Print ''x_contents:copy'', Print ''x_contents:index'',
        CallOp ''lab'' ''build'', Print ''x_lab:copy'',
        LogError (''[lite] [build] [lab] [ERR] '' @ [CHR 0x27] @ ''name'' @ [CHR 0x27])])"
    by (simp add: site_defs)
  have names: "yielded_names (gather lenient_manager
          [(''contents'', contents_addon), (''lab'', lab_addon)] ''build'' site_store) =
     [Some (Str ''x_contents:copy''), Some (Str ''x_contents:index''), Some (Str ''x_lab:copy'')]"
    unfolding build by (simp add: yielded_names_def site_store_def)
  have post: "yielded_names (gather lenient_manager
          [(''contents'', contents_addon), (''lab'', lab_addon)] ''post_build''
          (store_after (gather lenient_manager
             [(''contents'', contents_addon), (''lab'', lab_addon)] ''build'' site_store))) =
     [Some (Str ''x_contents:copy'')]"
    unfolding build by (simp add: yielded_names_def site_defs)
  show ?thesis
    unfolding names post by simp
qed

text \<open>
  Claim C2, amended. Let the descriptors the registered addons yield for the attributes
  \<open>attrs\<close> be in the store. Every descriptor a generator yields has as its name the task
  prefix, the name of the addon it comes from, a colon, and the formatted name the
  addon gave it. The names a generator yields are the same from any larger store, such
  as the one an earlier generator leaves. And the names yielded by the generators of
  \<open>attrs\<close> are pairwise distinct when no addon name contains a colon (the registry being
  a dictionary, and \<open>attrs\<close> listing each attribute once) and no addon gives the same
  name to two of the descriptors it yields over these attributes; two addons that pick
  the same name for a task never collide.
\<close>

theorem gather_names:
  assumes "\<forall>attr \<in> set attrs. descriptors_in_store attr addons h"
  shows "(\<forall>attr \<in> set attrs. \<forall>p \<in> set (yielded (gather m addons attr h)).
            \<exists>(name, addon) \<in> set addons. \<exists>task \<in> set (fst (getattr_call addon attr)). \<exists>v.
              map_of (h ! task) ''name'' = Some v \<and>
              map_of (store_after (gather m addons attr h) ! p) ''name'' =
                Some (Str (task_prefix m @ name @ '':'' @ py_format v)))
       \<and> (\<forall>attr \<in> set attrs. \<forall>extra.
            yielded_names (gather m addons attr (h @ extra)) =
            yielded_names (gather m addons attr h))
       \<and> (distinct (map fst addons)
            \<and> (\<forall>name \<in> fst ` set addons. CHR '':'' \<notin> set name)
            \<and> distinct attrs
            \<and> (\<forall>(name, addon) \<in> set addons.
                  distinct (concat (map (polled_names h addon) attrs)))
          \<longrightarrow> distinct (concat (map (\<lambda>attr. yielded_names (gather m addons attr h)) attrs)))"
proof -
  have rewritten: "\<exists>(name, addon) \<in> set addons. \<exists>task \<in> set (fst (getattr_call addon attr)). \<exists>v.
              map_of (h ! task) ''name'' = Some v \<and>
              map_of (store_after (gather m addons attr h) ! p) ''name'' =
                Some (Str (task_prefix m @ name @ '':'' @ py_format v))"
    if attr: "attr \<in> set attrs" and p: "p \<in> set (yielded (gather m addons attr h))" for attr p
  proof -
    have wf: "descriptors_in_store attr addons h" using assms attr by blast
    from gather_loop_yielded [OF wf, of p m] p
    obtain name addon task v where
      src: "(name, addon) \<in> set addons" "task \<in> set (fst (getattr_call addon attr))"
      and v: "map_of (h ! task) ''name'' = Some v"
      and st: "store_after (gather m addons attr h) ! p =
          dict_set (h ! task) ''name'' (Str (task_prefix m @ name @ '':'' @ py_format v))"
      unfolding gather_def by auto
    have "\<exists>task \<in> set (fst (getattr_call addon attr)). \<exists>v.
              map_of (h ! task) ''name'' = Some v \<and>
              map_of (store_after (gather m addons attr h) ! p) ''name'' =
                Some (Str (task_prefix m @ name @ '':'' @ py_format v))"
      by (rule bexI [OF _ src(2)], rule exI [of _ v]) (simp add: v st map_of_dict_set)
    then show ?thesis using src(1) by blast
  qed
  have stable: "yielded_names (gather m addons attr (h @ extra)) =
            yielded_names (gather m addons attr h)"
    if attr: "attr \<in> set attrs" for attr extra
  proof -
    have wf: "descriptors_in_store attr addons h" using assms attr by blast
    from gather_loop_names [OF wf, of m] obtain k where
      k: "\<And>e. yielded_names (gather_loop m attr addons (h @ e)) =
              concat (map (contributed m h attr) (take k addons))"
      by blast
    show ?thesis
      unfolding gather_def using k [of extra] k [of "[]"] by simp
  qed
  have apart: "distinct (concat (map (\<lambda>attr. yielded_names (gather m addons attr h)) attrs))"
    if "distinct (map fst addons)"
      and "\<forall>name \<in> fst ` set addons. CHR '':'' \<notin> set name"
      and "distinct attrs"
      and "\<forall>(name, addon) \<in> set addons. distinct (concat (map (polled_names h addon) attrs))"
    using that assms by (intro gather_names_distinct_all) auto
  show ?thesis
    using rewritten stable apart by blast
qed

theorem gather_names_witness:
  "descriptors_in_store ''build'' [(''lab'', lab_addon), (''broken'', broken_addon)] site_store
   \<and> descriptors_in_store ''post_build'' [(''lab'', lab_addon), (''broken'', broken_addon)] site_store
   \<and> polled_names site_store lab_addon ''build'' = [''copy'', ''index'']
   \<and> polled_names site_store broken_addon ''build'' = [''copy'']
   \<and> polled_names site_store lab_addon ''post_build'' = []
   \<and> polled_names site_store broken_addon ''post_build'' = []
   \<and> yielded_names (gather lenient_manager [(''lab'', lab_addon), (''broken'', broken_addon)]
                       ''build'' site_store) =
       [Some (Str ''x_lab:copy''), Some (Str ''x_broken:copy'')]
   \<and> yielded_names (gather lenient_manager [(''lab'', lab_addon), (''broken'', broken_addon)]
                       ''post_build'' site_store) = []
   \<and> distinct (concat (map (\<lambda>attr. yielded_names
                 (gather lenient_manager [(''lab'', lab_addon), (''broken'', broken_addon)]
                    attr site_store)) [''build'', ''post_build'']))"
proof -
  let ?addons = "[(''lab'', lab_addon), (''broken'', broken_addon)]"
  have wf: "\<forall>attr \<in> set [''build'', ''post_build'']. descriptors_in_store attr ?addons site_store"
    by (simp add: descriptors_in_store_def lab_addon_def broken_addon_def site_store_def)
  have polled: "polled_names site_store lab_addon ''build'' = [''copy'', ''index'']"
    "polled_names site_store broken_addon ''build'' = [''copy'']"
    "polled_names site_store lab_addon ''post_build'' = []"
    "polled_names site_store broken_addon ''post_build'' = []"
    by (simp_all add: polled_names_def original_name_def has_name_def lab_addon_def
          broken_addon_def site_store_def)
  have own: "\<forall>(name, addon) \<in> set ?addons.
      distinct (concat (map (polled_names site_store addon) [''build'', ''post_build'']))"
    by (simp add: polled)
  have hyps: "distinct (map fst ?addons)
            \<and> (\<forall>name \<in> fst ` set ?addons. CHR '':'' \<notin> set name)
            \<and> distinct [''build'', ''post_build'']
            \<and> (\<forall>(name, addon) \<in> set ?addons.
                  distinct (concat (map (polled_names site_store addon) [''build'', ''post_build''])))"
    using own by simp
  from gather_names [OF wf, of lenient_manager] hyps
  have all: "distinct (concat (map (\<lambda>attr. yielded_names
                 (gather lenient_manager ?addons attr site_store)) [''build'', ''post_build'']))"
    by blast
  have names: "yielded_names (gather lenient_manager ?addons ''build'' site_store) =
       [Some (Str ''x_lab:copy''), Some (Str ''x_broken:copy'')]"
    "yielded_names (gather lenient_manager ?addons ''post_build'' site_store) = []"
    by (simp_all add: yielded_names_def site_defs)
  show ?thesis
    using wf polled all names by simp
qed


end
